theory Spec2Isabelle
  imports Main "HOL-Library.Word"
begin

section \<open>JavaScript values and HTTP outcomes\<close>

text \<open>
  The program of \<^verbatim>\<open>src/index.ts\<close> branches on run-time values of unknown shape
  (\<^verbatim>\<open>response?.data\<close>, \<^verbatim>\<open>data?.msg\<close>, \<^verbatim>\<open>data?.extra\<close>), so the values are modelled as
  JavaScript has them. Numbers are integers here (no NaN, no fractions): the code only
  compares a number with \<^verbatim>\<open>1001\<close> and tests it for truthiness. \<open>Buf\<close> is a Node Buffer,
  the body of a request made with \<^verbatim>\<open>responseType: 'arraybuffer'\<close>.
\<close>

datatype jsval =
    Undefined
  | Null
  | Bool bool
  | Num int
  | Str string
  | Arr "jsval list"
  | Obj "(string \<times> jsval) list"
  | Buf "8 word list"

datatype error =
    Censorship        \<comment> \<open>\<^verbatim>\<open>Error('Couldn\'t pass the censorship. Try another photo.')\<close>\<close>
  | NoFace            \<comment> \<open>\<^verbatim>\<open>Error('No face in image')\<close>\<close>
  | Exhausted jsval   \<comment> \<open>\<^verbatim>\<open>Error(JSON.stringify(v))\<close>, carrying the stringified value \<open>v\<close>\<close>
  | LoadFailed        \<comment> \<open>\<^verbatim>\<open>Error('Couldn\'t load the photo, please try again')\<close>\<close>
  | TypeError         \<comment> \<open>property read on \<^verbatim>\<open>undefined\<close> or \<^verbatim>\<open>null\<close>\<close>
  | External string   \<comment> \<open>an exception raised by a collaborator (Telegram, JSON.parse, Buffer)\<close>

text \<open>The condition of \<^verbatim>\<open>if (v)\<close>. Every object is truthy, an empty Buffer included.\<close>

fun truthy :: "jsval \<Rightarrow> bool" where
  "truthy Undefined = False"
| "truthy Null = False"
| "truthy (Bool b) = b"
| "truthy (Num n) = (n \<noteq> 0)"
| "truthy (Str s) = (s \<noteq> [])"
| "truthy (Arr xs) = True"
| "truthy (Obj fs) = True"
| "truthy (Buf bs) = True"

text \<open>
  \<^verbatim>\<open>v?.k\<close> for the keys the program reads (\<^verbatim>\<open>msg\<close>, \<^verbatim>\<open>code\<close>, \<^verbatim>\<open>extra\<close>, \<^verbatim>\<open>video_urls\<close>,
  \<^verbatim>\<open>img_urls\<close>; none of them is a built-in property of a string, an array or a Buffer):
  \<^verbatim>\<open>undefined\<close> on \<^verbatim>\<open>undefined\<close> and \<^verbatim>\<open>null\<close>, the field of an object, \<^verbatim>\<open>undefined\<close> otherwise.
  An object lists each of its keys once.
\<close>

fun opt_prop :: "jsval \<Rightarrow> string \<Rightarrow> jsval" where
  "opt_prop (Obj fs) k = (case map_of fs k of Some v \<Rightarrow> v | None \<Rightarrow> Undefined)"
| "opt_prop v k = Undefined"

text \<open>\<^verbatim>\<open>v.k\<close> without the question mark raises a TypeError on \<^verbatim>\<open>undefined\<close> and \<^verbatim>\<open>null\<close>.\<close>

fun get_prop :: "jsval \<Rightarrow> string \<Rightarrow> error + jsval" where
  "get_prop Undefined k = Inl TypeError"
| "get_prop Null k = Inl TypeError"
| "get_prop v k = Inr (opt_prop v k)"

text \<open>
  \<^verbatim>\<open>v[i]\<close> for a literal index: an element of an array, a one-character string of a
  string, a byte of a Buffer, the field named by the digit of an object; \<^verbatim>\<open>undefined\<close>
  out of range; a TypeError on \<^verbatim>\<open>undefined\<close> and \<^verbatim>\<open>null\<close>. The program indexes with the
  literals 0 and 1 only, and only these two have a key.
\<close>

fun index_key :: "nat \<Rightarrow> string" where
  "index_key i = (if i = 0 then ''0'' else if i = 1 then ''1'' else ''?'')"

fun js_index :: "jsval \<Rightarrow> nat \<Rightarrow> error + jsval" where
  "js_index Undefined i = Inl TypeError"
| "js_index Null i = Inl TypeError"
| "js_index (Arr xs) i = Inr (if i < length xs then xs ! i else Undefined)"
| "js_index (Str s) i = Inr (if i < length s then Str [s ! i] else Undefined)"
| "js_index (Buf bs) i = Inr (if i < length bs then Num (uint (bs ! i)) else Undefined)"
| "js_index (Obj fs) i = Inr (opt_prop (Obj fs) (index_key i))"
| "js_index v i = Inr Undefined"

text \<open>
  An axios response object (its status and its body), and what one call of
  \<^verbatim>\<open>axios.request\<close> does: it resolves with a response, or rejects with an error whose
  \<^verbatim>\<open>response\<close> field is absent (timeout, connection failure) or present (a status
  outside 2xx).
\<close>

record response =
  status :: int
  data :: jsval

datatype http_result = Resolved response | Rejected "response option"

text \<open>\<^verbatim>\<open>response?.data\<close>\<close>

fun opt_data :: "response option \<Rightarrow> jsval" where
  "opt_data None = Undefined"
| "opt_data (Some r) = data r"

text \<open>
  The remote side is a sequence of outcomes: the \<open>i\<close>-th call of \<^verbatim>\<open>axios.request\<close> made
  by a loop gets \<open>get i\<close>.
\<close>

type_synonym remote = "nat \<Rightarrow> http_result"

section \<open>qqDownload\<close>

text \<open>
  \<^verbatim>\<open>
  let response;
  for (let retry = 0; retry < 100; retry++) {
      try { response = await axios.request({url, timeout: 10000, responseType: 'arraybuffer'}); }
      catch (e) { response = (e as AxiosError).response; console.error(...); }
      if (response?.data) { break; }
  }
  return response?.data;
  \<close>
  The counter only goes up, so the request made at counter value \<open>retry\<close> is request
  number \<open>retry\<close>.
\<close>

fun caught_response :: "http_result \<Rightarrow> response option" where
  "caught_response (Resolved r) = Some r"
| "caught_response (Rejected r) = r"

function qqDownload_loop :: "remote \<Rightarrow> nat \<Rightarrow> response option \<Rightarrow> response option" where
  "qqDownload_loop get retry response =
     (if retry < 100 then
        (let response' = caught_response (get retry)
         in if truthy (opt_data response') then response'
            else qqDownload_loop get (retry + 1) response')
      else response)"
  by pat_completeness auto
termination
  by (relation "measure (\<lambda>(get, retry, response). 100 - retry)") auto

declare qqDownload_loop.simps [simp del]

definition qqDownload :: "remote \<Rightarrow> jsval" where
  "qqDownload get = opt_data (qqDownload_loop get 0 None)"

section \<open>qqRequest\<close>

text \<open>
  \<^verbatim>\<open>
  let response; let data;
  for (let retry = 0; retry < 100; retry++) {
      try { response = await axios.request({method: 'POST', ..., timeout: 30000}); }
      catch (e) { response = (e as AxiosError).response; }
      data = response?.data;
      if (data?.msg === 'IMG_ILLEGAL') { throw new Error('Couldn\'t pass the censorship. ...'); }
      if (data?.msg === 'VOLUMN_LIMIT') { retry--; await new Promise((r) => setTimeout(r, 3000)); }
      if (data?.code === 1001) { throw new Error('No face in image'); }
      if (data?.extra) { break; }
  }
  if (data?.extra) {
      const extra = JSON.parse(data.extra as string);
      return { video: extra.video_urls[0], img: extra.img_urls[1] };
  } else { throw new Error(JSON.stringify(response?.data)); }
  \<close>
  The state of the loop: the variables \<^verbatim>\<open>retry\<close>, \<^verbatim>\<open>response\<close> and \<^verbatim>\<open>data\<close> of the source
  (the fields \<open>l_retry\<close>, \<open>l_response\<close> and \<open>l_data\<close>) and two counters of its effects, the
  number of POST requests issued so far
  (\<open>posts\<close>, which is also the index of the next outcome of the remote side) and the
  milliseconds spent in \<^verbatim>\<open>setTimeout\<close> (\<open>slept\<close>). The counter \<open>l_retry\<close> is an integer: the
  source decrements it.
\<close>

datatype flow = Throw error | Break | Next

record qq_state =
  l_retry :: int
  posts :: nat
  slept :: nat
  l_response :: "response option"
  l_data :: jsval

definition qq_init :: qq_state where
  "qq_init = \<lparr>l_retry = 0, posts = 0, slept = 0, l_response = None, l_data = Undefined\<rparr>"

text \<open>One pass through the body of the loop, on the outcome \<open>r\<close> of its request.\<close>

definition qqRequest_body :: "http_result \<Rightarrow> qq_state \<Rightarrow> flow \<times> qq_state" where
  "qqRequest_body r s =
     (let s1 = s\<lparr>posts := posts s + 1, l_response := caught_response r,
                l_data := opt_data (caught_response r)\<rparr>
      in if opt_prop (l_data s1) ''msg'' = Str ''IMG_ILLEGAL'' then (Throw Censorship, s1)
         else
           (let s2 = (if opt_prop (l_data s1) ''msg'' = Str ''VOLUMN_LIMIT''
                      then s1\<lparr>l_retry := l_retry s1 - 1, slept := slept s1 + 3000\<rparr> else s1)
            in if opt_prop (l_data s2) ''code'' = Num 1001 then (Throw NoFace, s2)
               else if truthy (opt_prop (l_data s2) ''extra'') then (Break, s2)
               else (Next, s2)))"

text \<open>
  The loop can run forever (a remote side that always answers \<^verbatim>\<open>VOLUMN_LIMIT\<close>), so it is a
  partial function: \<open>None\<close> is the run that never leaves the loop. A run that leaves it
  gives the exception thrown inside, if any, and the final state.
\<close>

partial_function (option) qqRequest_loop :: "remote \<Rightarrow> qq_state \<Rightarrow> (error option \<times> qq_state) option" where
  "qqRequest_loop post s =
     (if l_retry s < 100 then
        (case qqRequest_body (post (posts s)) s of
           (Throw e, s') \<Rightarrow> Some (Some e, s')
         | (Break, s') \<Rightarrow> Some (None, s')
         | (Next, s') \<Rightarrow> qqRequest_loop post (s'\<lparr>l_retry := l_retry s' + 1\<rparr>))
      else Some (None, s))"

declare qqRequest_loop.simps [code]

record urls =
  video :: jsval
  img :: jsval

text \<open>
  \<^verbatim>\<open>JSON.parse\<close> is a parameter: \<open>parse v\<close> is the value it returns on the argument \<open>v\<close>, or
  the exception it throws. The object literal evaluates \<^verbatim>\<open>extra.video_urls[0]\<close> before
  \<^verbatim>\<open>extra.img_urls[1]\<close>.
\<close>

definition extract_urls :: "(jsval \<Rightarrow> error + jsval) \<Rightarrow> jsval \<Rightarrow> error + urls" where
  "extract_urls parse x =
     (case parse x of Inl e \<Rightarrow> Inl e
      | Inr extra \<Rightarrow>
        (case get_prop extra ''video_urls'' of Inl e \<Rightarrow> Inl e
         | Inr vs \<Rightarrow>
           (case js_index vs 0 of Inl e \<Rightarrow> Inl e
            | Inr v \<Rightarrow>
              (case get_prop extra ''img_urls'' of Inl e \<Rightarrow> Inl e
               | Inr ims \<Rightarrow>
                 (case js_index ims 1 of Inl e \<Rightarrow> Inl e
                  | Inr i \<Rightarrow> Inr \<lparr>video = v, img = i\<rparr>)))))"

text \<open>The code after the loop.\<close>

definition qqRequest_return :: "(jsval \<Rightarrow> error + jsval) \<Rightarrow> qq_state \<Rightarrow> error + urls" where
  "qqRequest_return parse s =
     (if truthy (opt_prop (l_data s) ''extra'')
      then extract_urls parse (opt_prop (l_data s) ''extra'')
      else Inl (Exhausted (opt_data (l_response s))))"

text \<open>
  The function from a given state of the loop, and from its initial state. The result is
  the value returned or the exception thrown, with the final state; \<open>None\<close> when the call
  never returns.
\<close>

definition qqRequest_from ::
  "(jsval \<Rightarrow> error + jsval) \<Rightarrow> remote \<Rightarrow> qq_state \<Rightarrow> ((error + urls) \<times> qq_state) option" where
  "qqRequest_from parse post s =
     (case qqRequest_loop post s of
        None \<Rightarrow> None
      | Some (Some e, s') \<Rightarrow> Some (Inl e, s')
      | Some (None, s') \<Rightarrow> Some (qqRequest_return parse s', s'))"

definition qqRequest ::
  "(jsval \<Rightarrow> error + jsval) \<Rightarrow> remote \<Rightarrow> ((error + urls) \<times> qq_state) option" where
  "qqRequest parse post = qqRequest_from parse post qq_init"

subsection \<open>Vocabulary for the properties of qqRequest\<close>

text \<open>
  The payload of an attempt is \<^verbatim>\<open>response?.data\<close> (\<^verbatim>\<open>undefined\<close> when the request failed
  without a response). The four markers are the four conditions the body tests.
\<close>

definition payload :: "http_result \<Rightarrow> jsval" where
  "payload r = opt_data (caught_response r)"

definition illegal_marker :: "jsval \<Rightarrow> bool" where
  "illegal_marker d = (opt_prop d ''msg'' = Str ''IMG_ILLEGAL'')"

definition rate_limit_marker :: "jsval \<Rightarrow> bool" where
  "rate_limit_marker d = (opt_prop d ''msg'' = Str ''VOLUMN_LIMIT'')"

definition no_face_marker :: "jsval \<Rightarrow> bool" where
  "no_face_marker d = (opt_prop d ''code'' = Num 1001)"

definition success_marker :: "jsval \<Rightarrow> bool" where
  "success_marker d = truthy (opt_prop d ''extra'')"

text \<open>A rate-limit payload that carries neither the no-face code nor a result envelope.\<close>

definition pure_rate_limit :: "jsval \<Rightarrow> bool" where
  "pure_rate_limit d = (rate_limit_marker d \<and> \<not> no_face_marker d \<and> \<not> success_marker d)"

text \<open>A payload that neither ends the call with an exception nor carries a result.\<close>

definition unclassified :: "jsval \<Rightarrow> bool" where
  "unclassified d = (\<not> illegal_marker d \<and> \<not> no_face_marker d \<and> \<not> success_marker d)"

text \<open>The state after the outcome \<open>r\<close> is stored, and after the back-off.\<close>

definition received :: "http_result \<Rightarrow> qq_state \<Rightarrow> qq_state" where
  "received r s = s\<lparr>posts := posts s + 1, l_response := caught_response r, l_data := payload r\<rparr>"

definition backed_off :: "qq_state \<Rightarrow> qq_state" where
  "backed_off s = s\<lparr>l_retry := l_retry s - 1, slept := slept s + 3000\<rparr>"

text \<open>The number of attempts among the requests \<open>a, \<dots>, b - 1\<close> that were not rate-limited.\<close>

definition nonrl_attempts :: "remote \<Rightarrow> nat \<Rightarrow> nat \<Rightarrow> nat" where
  "nonrl_attempts post a b =
     length (filter (\<lambda>i. \<not> rate_limit_marker (payload (post i))) [a..<b])"

text \<open>The variables hold the outcome of the last request, which carried no result.\<close>

definition last_attempt_kept :: "remote \<Rightarrow> qq_state \<Rightarrow> bool" where
  "last_attempt_kept post s =
     (0 < posts s \<and> l_response s = caught_response (post (posts s - 1)) \<and>
      l_data s = payload (post (posts s - 1)) \<and> \<not> success_marker (l_data s))"

text \<open>
  The state at the head of the loop after \<open>n\<close> complete passes, \<open>None\<close> when the loop has
  ended before. It observes a run that the partial function only reports as \<open>None\<close>.
\<close>

primrec loop_head :: "remote \<Rightarrow> qq_state \<Rightarrow> nat \<Rightarrow> qq_state option" where
  "loop_head post s 0 = Some s"
| "loop_head post s (Suc n) =
     (case loop_head post s n of
        None \<Rightarrow> None
      | Some t \<Rightarrow>
          if l_retry t < 100 then
            (case qqRequest_body (post (posts t)) t of
               (Next, t') \<Rightarrow> Some (t'\<lparr>l_retry := l_retry t' + 1\<rparr>)
             | (Throw e, t') \<Rightarrow> None
             | (Break, t') \<Rightarrow> None)
          else None)"

section \<open>The session list\<close>

text \<open>
  \<^verbatim>\<open>type UserSession = { userId: number; ctx: Context; photoId: string; }\<close> and
  \<^verbatim>\<open>const userSessions: Array<UserSession> = []\<close>. The Telegraf context is a handle, a
  number here; what a send through it does is part of the environment below.
\<close>

record session =
  userId :: int
  ctx :: nat
  photoId :: string

text \<open>\<^verbatim>\<open>Array.prototype.findIndex\<close>: the index of the first match, \<open>-1\<close> when there is none.\<close>

fun findIndex_from :: "('a \<Rightarrow> bool) \<Rightarrow> 'a list \<Rightarrow> int \<Rightarrow> int" where
  "findIndex_from P [] i = - 1"
| "findIndex_from P (x # xs) i = (if P x then i else findIndex_from P xs (i + 1))"

definition findIndex :: "('a \<Rightarrow> bool) \<Rightarrow> 'a list \<Rightarrow> int" where
  "findIndex P xs = findIndex_from P xs 0"

text \<open>
  \<^verbatim>\<open>Array.prototype.splice(start, deleteCount)\<close> with no inserted items: a negative start
  counts from the end, the start is clamped to the array and the count to what is left.
\<close>

definition splice :: "int \<Rightarrow> int \<Rightarrow> 'a list \<Rightarrow> 'a list" where
  "splice start deleteCount xs =
     (let len = int (length xs);
          k = (if start < 0 then max (len + start) 0 else min start len);
          dc = min (max deleteCount 0) (len - k)
      in take (nat k) xs @ drop (nat (k + dc)) xs)"

text \<open>
  The last statements of \<^verbatim>\<open>processUserSession\<close>:
  \<^verbatim>\<open>
  const currentSessionIndex = userSessions.findIndex((session) => session.userId === userId);
  userSessions.splice(currentSessionIndex, 1);
  \<close>
\<close>

definition release :: "session list \<Rightarrow> int \<Rightarrow> session list" where
  "release userSessions uid =
     (let currentSessionIndex = findIndex (\<lambda>session. userId session = uid) userSessions
      in splice currentSessionIndex 1 userSessions)"

text \<open>
  The first statements of \<^verbatim>\<open>addUserSession\<close>, up to the push:
  \<^verbatim>\<open>
  const currentSession = (userSessions.find((session) => session.userId === userId));
  if (currentSession) { await ctx.reply('You are already in the queue, please wait'); return; }
  userSessions.push(session);
  \<close>
\<close>

datatype admission = AlreadyQueued | Admitted

definition admit :: "session list \<Rightarrow> session \<Rightarrow> admission \<times> session list" where
  "admit userSessions sess =
     (case find (\<lambda>session. userId session = userId sess) userSessions of
        Some currentSession \<Rightarrow> (AlreadyQueued, userSessions)
      | None \<Rightarrow> (Admitted, userSessions @ [sess]))"

text \<open>
  The bot as a transition system. JavaScript runs each handler to its next \<^verbatim>\<open>await\<close>
  without interruption, so the search and the push of \<^verbatim>\<open>addUserSession\<close> are one step, and
  so are the two statements that end \<^verbatim>\<open>processUserSession\<close>; between them the runs of
  different users interleave freely. The state is the array and the users whose call of
  \<^verbatim>\<open>processUserSession\<close> has started and not yet reached its last statements.
\<close>

record system =
  registry :: "session list"
  running :: "int list"

definition on_photo :: "system \<Rightarrow> session \<Rightarrow> system" where
  "on_photo \<sigma> sess =
     (case admit (registry \<sigma>) sess of
        (AlreadyQueued, us) \<Rightarrow> \<sigma>
      | (Admitted, us) \<Rightarrow> \<lparr>registry = us, running = userId sess # running \<sigma>\<rparr>)"

definition on_finished :: "system \<Rightarrow> int \<Rightarrow> system" where
  "on_finished \<sigma> uid =
     \<lparr>registry = release (registry \<sigma>) uid, running = remove1 uid (running \<sigma>)\<rparr>"

text \<open>
  The events of the bot: a photo arrives for a session, or the run of a user reaches its
  last statements. Only a user with a run in flight can finish; an event for another user
  does not occur and changes nothing.
\<close>

datatype event = Photo session | Finished int

fun step :: "system \<Rightarrow> event \<Rightarrow> system" where
  "step \<sigma> (Photo sess) = on_photo \<sigma> sess"
| "step \<sigma> (Finished uid) = (if uid \<in> set (running \<sigma>) then on_finished \<sigma> uid else \<sigma>)"

definition run :: "event list \<Rightarrow> system" where
  "run evs = foldl step \<lparr>registry = [], running = []\<rparr> evs"

definition registry_ok :: "system \<Rightarrow> bool" where
  "registry_ok \<sigma> =
     (distinct (map userId (registry \<sigma>)) \<and> distinct (running \<sigma>) \<and>
      set (map userId (registry \<sigma>)) = set (running \<sigma>))"

section \<open>processUserSession and addUserSession\<close>

text \<open>
  What the run sends through \<^verbatim>\<open>ctx.reply\<close>, \<^verbatim>\<open>ctx.replyWithPhoto\<close> and
  \<^verbatim>\<open>ctx.replyWithVideo\<close>; the fixed texts are constructors.
\<close>

datatype outmsg =
    MsgReceived          \<comment> \<open>\<^verbatim>\<open>'Photo has been received, uploading to QQ'\<close>\<close>
  | MsgDownloading       \<comment> \<open>\<^verbatim>\<open>'Downloading the result from QQ'\<close>\<close>
  | MsgPhoto jsval       \<comment> \<open>\<^verbatim>\<open>replyWithPhoto({source: imgData})\<close>\<close>
  | MsgVideo jsval       \<comment> \<open>\<^verbatim>\<open>replyWithVideo({source: videoData})\<close>\<close>
  | MsgDone              \<comment> \<open>\<^verbatim>\<open>'Done. Please, rate and fork me on Github ...'\<close>\<close>
  | MsgError error       \<comment> \<open>\<^verbatim>\<open>'Some nasty error has occurred\n\n' + e.toString()\<close>\<close>
  | MsgAlreadyQueued     \<comment> \<open>\<^verbatim>\<open>'You are already in the queue, please wait'\<close>\<close>

text \<open>
  The collaborators of a run. \<open>getFileLink\<close> is \<^verbatim>\<open>ctx.telegram.getFileLink\<close>; \<open>send c m\<close> is
  the promise of a send through the handle \<open>c\<close> (\<open>None\<close> when it resolves, the error when it
  rejects); \<open>toBase64\<close> is \<^verbatim>\<open>toString('base64')\<close> on a body that is neither
  \<^verbatim>\<open>undefined\<close> nor \<^verbatim>\<open>null\<close>; the four remote sides answer the requests for the photo, the
  POST with a given image and the downloads of the two result URLs; \<open>video_rejects_first\<close>
  says which rejection \<^verbatim>\<open>Promise.all\<close> reports when both sends of the result fail.
  Exceptions are \<^verbatim>\<open>Error\<close> objects, and a send returns a promise and does not throw. The
  writes of \<^verbatim>\<open>fs.writeFile\<close> under \<^verbatim>\<open>KEEP_FILES\<close> are not awaited and their outcome cannot
  reach the run; they are left out.
\<close>

record env =
  getFileLink :: "string \<Rightarrow> error + string"
  photo_get :: "string \<Rightarrow> remote"
  send :: "nat \<Rightarrow> outmsg \<Rightarrow> error option"
  toBase64 :: "jsval \<Rightarrow> error + string"
  qq_post :: "string \<Rightarrow> remote"
  json_parse :: "jsval \<Rightarrow> error + jsval"
  video_get :: "jsval \<Rightarrow> remote"
  img_get :: "jsval \<Rightarrow> remote"
  video_rejects_first :: bool

text \<open>
  The loop that loads the photo. Its \<^verbatim>\<open>catch (e) {}\<close> is empty: after a failed request
  \<^verbatim>\<open>response\<close> keeps the value of the attempt before.
  \<^verbatim>\<open>
  let response;
  for (let retry = 0; retry < 100; retry++) {
      try { response = await axios.request({url: url.href, timeout: 10000, ...}); } catch (e) {}
      if (response?.data) { break; }
  }
  if (!response) { ...; throw new Error('Couldn\'t load the photo, please try again'); }
  \<close>
\<close>

function fetch_photo_loop :: "remote \<Rightarrow> nat \<Rightarrow> response option \<Rightarrow> response option" where
  "fetch_photo_loop get retry response =
     (if retry < 100 then
        (let response' = (case get retry of Resolved r \<Rightarrow> Some r | Rejected e \<Rightarrow> response)
         in if truthy (opt_data response') then response'
            else fetch_photo_loop get (retry + 1) response')
      else response)"
  by pat_completeness auto
termination
  by (relation "measure (\<lambda>(get, retry, response). 100 - retry)") auto

declare fetch_photo_loop.simps [simp del]

definition fetch_photo :: "remote \<Rightarrow> error + response" where
  "fetch_photo get =
     (case fetch_photo_loop get 0 None of
        None \<Rightarrow> Inl LoadFailed
      | Some response \<Rightarrow> Inr response)"

text \<open>\<^verbatim>\<open>response.data.toString('base64')\<close>\<close>

fun toString_base64 :: "(jsval \<Rightarrow> error + string) \<Rightarrow> jsval \<Rightarrow> error + string" where
  "toString_base64 enc Undefined = Inl TypeError"
| "toString_base64 enc Null = Inl TypeError"
| "toString_base64 enc v = enc v"

text \<open>
  The end of the \<^verbatim>\<open>try\<close> block: both results are sent under one \<^verbatim>\<open>Promise.all\<close>, then the
  closing text. The result is the exception that leaves the block, if any, and the sends
  attempted so far.
\<close>

definition deliver :: "env \<Rightarrow> session \<Rightarrow> jsval \<Rightarrow> jsval \<Rightarrow> error option \<times> outmsg list" where
  "deliver env sess videoData imgData =
     (let sent = [MsgReceived, MsgDownloading, MsgPhoto imgData, MsgVideo videoData]
      in case (send env (ctx sess) (MsgPhoto imgData), send env (ctx sess) (MsgVideo videoData)) of
           (Some e1, Some e2) \<Rightarrow> (Some (if video_rejects_first env then e2 else e1), sent)
         | (Some e1, None) \<Rightarrow> (Some e1, sent)
         | (None, Some e2) \<Rightarrow> (Some e2, sent)
         | (None, None) \<Rightarrow> (send env (ctx sess) MsgDone, sent @ [MsgDone]))"

text \<open>The \<^verbatim>\<open>try\<close> block of \<^verbatim>\<open>processUserSession\<close>; \<open>None\<close> when \<^verbatim>\<open>qqRequest\<close> never returns.\<close>

definition try_block :: "env \<Rightarrow> session \<Rightarrow> (error option \<times> outmsg list) option" where
  "try_block env sess =
     (case getFileLink env (photoId sess) of
        Inl e \<Rightarrow> Some (Some e, [])
      | Inr url \<Rightarrow>
        (case fetch_photo (photo_get env url) of
           Inl e \<Rightarrow> Some (Some e, [])
         | Inr response \<Rightarrow>
           (case send env (ctx sess) MsgReceived of
              Some e \<Rightarrow> Some (Some e, [MsgReceived])
            | None \<Rightarrow>
              (case toString_base64 (toBase64 env) (data response) of
                 Inl e \<Rightarrow> Some (Some e, [MsgReceived])
               | Inr imgData \<Rightarrow>
                 (case qqRequest (json_parse env) (qq_post env imgData) of
                    None \<Rightarrow> None
                  | Some (Inl e, s) \<Rightarrow> Some (Some e, [MsgReceived])
                  | Some (Inr urls, s) \<Rightarrow>
                    (case send env (ctx sess) MsgDownloading of
                       Some e \<Rightarrow> Some (Some e, [MsgReceived, MsgDownloading])
                     | None \<Rightarrow>
                         Some (deliver env sess
                           (qqDownload (video_get env (video urls)))
                           (qqDownload (img_get env (img urls))))))))))"


text \<open>\<^verbatim>\<open>promise.catch(e => e)\<close>: the promise it gives never rejects.\<close>

fun catch_ignore :: "error option \<Rightarrow> error option" where
  "catch_ignore None = None"
| "catch_ignore (Some e) = None"

text \<open>
  The whole function: the \<^verbatim>\<open>try\<close> block, the \<^verbatim>\<open>catch\<close> block
  (\<^verbatim>\<open>ctx.reply('Some nasty error ...' + e.toString()).catch(e => e)\<close>), then the two
  statements that release the session. The run does not read the array before those two
  statements, so \<open>userSessions\<close> is the array as it stands when the run reaches them. The
  result is the exception that leaves the function, if any, the array, and the sends
  attempted.
\<close>

definition processUserSession ::
  "env \<Rightarrow> session \<Rightarrow> session list \<Rightarrow> (error option \<times> session list \<times> outmsg list) option" where
  "processUserSession env sess userSessions =
     (case try_block env sess of
        None \<Rightarrow> None
      | Some (None, sent) \<Rightarrow> Some (None, release userSessions (userId sess), sent)
      | Some (Some e, sent) \<Rightarrow>
          Some (catch_ignore (send env (ctx sess) (MsgError e)),
                release userSessions (userId sess), sent @ [MsgError e]))"

text \<open>\<^verbatim>\<open>addUserSession\<close> run on its own, with no other handler in between.\<close>

definition addUserSession ::
  "env \<Rightarrow> session list \<Rightarrow> session \<Rightarrow> (error option \<times> session list \<times> outmsg list) option" where
  "addUserSession env userSessions sess =
     (case admit userSessions sess of
        (AlreadyQueued, us) \<Rightarrow> Some (send env (ctx sess) MsgAlreadyQueued, us, [MsgAlreadyQueued])
      | (Admitted, us) \<Rightarrow> processUserSession env sess us)"

section \<open>Sample inputs\<close>

text \<open>
  Canned payloads and environments for the concrete runs below: a response with status 200
  and a JSON object as body, a parser that knows one envelope (a video list with one URL
  and an image list with two), and a collaborator set where every step succeeds.
\<close>

definition canned :: "(string \<times> jsval) list \<Rightarrow> http_result" where
  "canned fs = Resolved \<lparr>status = 200, data = Obj fs\<rparr>"

definition canned_parse :: "jsval \<Rightarrow> error + jsval" where
  "canned_parse x =
     (if x = Str ''ENVELOPE''
      then Inr (Obj [(''video_urls'', Arr [Str ''v.mp4'']),
                     (''img_urls'', Arr [Str ''ignored'', Str ''out.jpg''])])
      else Inl (External ''SyntaxError''))"

definition scenario_env :: env where
  "scenario_env =
     \<lparr>getFileLink = (\<lambda>p. Inr ''https://files/photo''),
      photo_get = (\<lambda>u i. Resolved \<lparr>status = 200, data = Buf [255, 216]\<rparr>),
      send = (\<lambda>c m. None),
      toBase64 = (\<lambda>v. Inr ''/9g=''),
      qq_post = (\<lambda>b i. canned [(''code'', Num 0), (''extra'', Str ''ENVELOPE'')]),
      json_parse = canned_parse,
      video_get = (\<lambda>u i. Resolved \<lparr>status = 200, data = Buf [1]\<rparr>),
      img_get = (\<lambda>u i. Resolved \<lparr>status = 200, data = Buf [2]\<rparr>),
      video_rejects_first = False\<rparr>"

definition empty_body_env :: env where
  "empty_body_env = scenario_env\<lparr>photo_get := (\<lambda>u i. Resolved \<lparr>status = 200, data = Undefined\<rparr>)\<rparr>"


text \<open>
  Remote sides for the POST: five rate limits and then only unmarked payloads; 99 unmarked
  payloads and then a request that fails without a response.
\<close>

definition limited_then_busy :: remote where
  "limited_then_busy i =
     (if i < 5 then canned [(''msg'', Str ''VOLUMN_LIMIT'')] else canned [(''msg'', Str ''BUSY'')])"

definition busy_then_offline :: remote where
  "busy_then_offline i = (if i < 99 then canned [(''msg'', Str ''BUSY'')] else Rejected None)"






section \<open>Properties of qqDownload\<close>

lemma qqDownload_loop_skip:
  assumes "\<forall>i. retry \<le> i \<and> i < k \<longrightarrow> \<not> truthy (opt_data (caught_response (get i)))"
    and "retry \<le> k" and "k < 100"
    and "truthy (opt_data (caught_response (get k)))"
  shows "qqDownload_loop get retry response = caught_response (get k)"
  using assms
proof (induction "k - retry" arbitrary: retry response)
  case 0
  then have "retry = k" by simp
  with 0 show ?case by (subst qqDownload_loop.simps) simp
next
  case (Suc d)
  then have lt: "retry < k" by simp
  with Suc.prems have nt: "\<not> truthy (opt_data (caught_response (get retry)))" by simp
  have "qqDownload_loop get (retry + 1) (caught_response (get retry)) = caught_response (get k)"
    using Suc.hyps(1) [of "retry + 1"] Suc.hyps(2) Suc.prems lt by simp
  with nt lt Suc.prems(3) show ?case
    by (subst qqDownload_loop.simps) simp
qed

lemma qqDownload_loop_exhaust:
  assumes "\<forall>i. retry \<le> i \<and> i < 100 \<longrightarrow> \<not> truthy (opt_data (caught_response (get i)))"
    and "retry < 100"
  shows "qqDownload_loop get retry response = caught_response (get 99)"
  using assms
proof (induction "99 - retry" arbitrary: retry response)
  case 0
  then have r: "retry = 99" by simp
  have "qqDownload_loop get 100 (caught_response (get 99)) = caught_response (get 99)"
    by (subst qqDownload_loop.simps) simp
  with 0 r show ?case
    by (subst qqDownload_loop.simps) simp
next
  case (Suc d)
  then have lt: "retry + 1 < 100" by simp
  from Suc.prems have nt: "\<not> truthy (opt_data (caught_response (get retry)))" by simp
  have "qqDownload_loop get (retry + 1) (caught_response (get retry)) = caught_response (get 99)"
    using Suc.hyps(1) [of "retry + 1"] Suc.hyps(2) Suc.prems lt by simp
  with nt Suc.prems(2) show ?case
    by (subst qqDownload_loop.simps) simp
qed


lemma qqDownload_never_raises:
  assumes "\<forall>i<100. \<not> truthy (opt_data (caught_response (get i)))"
  shows "qqDownload get = opt_data (caught_response (get 99))"
proof -
  have "qqDownload_loop get 0 None = caught_response (get 99)"
    by (rule qqDownload_loop_exhaust) (use assms in auto)
  then show ?thesis by (simp add: qqDownload_def)
qed

text \<open>
  C9. When an attempt of the download loop is rejected with an HTTP error whose error
  object carries a response with a truthy body, and no earlier attempt produced a truthy
  body, that body is what the download returns: the fetch succeeds with the content of
  the error response.
\<close>

theorem qqDownload_returns_error_body:
  assumes "k < 100"
    and "\<forall>i<k. \<not> truthy (opt_data (caught_response (get i)))"
    and "get k = Rejected (Some r)"
    and "truthy (data r)"
  shows "qqDownload get = data r"
proof -
  have "qqDownload_loop get 0 None = caught_response (get k)"
    by (rule qqDownload_loop_skip) (use assms in auto)
  with assms(3) show ?thesis by (simp add: qqDownload_def)
qed

theorem qqDownload_returns_error_body_witness:
  "qqDownload (\<lambda>i. if i < 2 then Rejected None
       else Rejected (Some \<lparr>status = 404, data = Buf [60, 104, 49, 62]\<rparr>))
     = Buf [60, 104, 49, 62]"
  using qqDownload_returns_error_body [of 2
      "\<lambda>i. if i < 2 then Rejected None
         else Rejected (Some \<lparr>status = 404, data = Buf [60, 104, 49, 62]\<rparr>)"
      "\<lparr>status = 404, data = Buf [60, 104, 49, 62]\<rparr>"]
  by simp

text \<open>
  C2, at the input where the code leaves it. One hundred attempts that all fail with a
  network error: the download does not raise, it returns \<^verbatim>\<open>undefined\<close> to its caller.
\<close>

theorem qqDownload_exhausted_returns_undefined:
  "qqDownload (\<lambda>i. Rejected None) = Undefined"
proof -
  have "qqDownload_loop (\<lambda>i. Rejected None) 0 None = caught_response (Rejected None)"
    by (rule qqDownload_loop_exhaust) simp_all
  then show ?thesis by (simp add: qqDownload_def)
qed

section \<open>Properties of qqRequest\<close>

lemma body_illegal:
  "illegal_marker (payload r) \<Longrightarrow> qqRequest_body r s = (Throw Censorship, received r s)"
  by (simp add: qqRequest_body_def illegal_marker_def payload_def received_def)

lemma body_no_face:
  "\<not> illegal_marker (payload r) \<Longrightarrow> no_face_marker (payload r) \<Longrightarrow>
   qqRequest_body r s =
     (Throw NoFace, if rate_limit_marker (payload r) then backed_off (received r s) else received r s)"
  by (simp add: qqRequest_body_def illegal_marker_def no_face_marker_def rate_limit_marker_def
      payload_def received_def backed_off_def)

lemma body_success:
  "\<not> illegal_marker (payload r) \<Longrightarrow> \<not> no_face_marker (payload r) \<Longrightarrow> success_marker (payload r) \<Longrightarrow>
   qqRequest_body r s =
     (Break, if rate_limit_marker (payload r) then backed_off (received r s) else received r s)"
  by (simp add: qqRequest_body_def illegal_marker_def no_face_marker_def rate_limit_marker_def
      success_marker_def payload_def received_def backed_off_def)

lemma body_next:
  "\<not> illegal_marker (payload r) \<Longrightarrow> \<not> no_face_marker (payload r) \<Longrightarrow> \<not> success_marker (payload r) \<Longrightarrow>
   qqRequest_body r s =
     (Next, if rate_limit_marker (payload r) then backed_off (received r s) else received r s)"
  by (simp add: qqRequest_body_def illegal_marker_def no_face_marker_def rate_limit_marker_def
      success_marker_def payload_def received_def backed_off_def)

lemma illegal_not_rate_limit: "illegal_marker d \<Longrightarrow> \<not> rate_limit_marker d"
  by (simp add: illegal_marker_def rate_limit_marker_def)

lemma body_cases:
  obtains (illegal) "illegal_marker (payload r)" "qqRequest_body r s = (Throw Censorship, received r s)"
  | (no_face) "\<not> illegal_marker (payload r)" "no_face_marker (payload r)"
      "qqRequest_body r s = (Throw NoFace, if rate_limit_marker (payload r) then backed_off (received r s) else received r s)"
  | (success) "\<not> illegal_marker (payload r)" "\<not> no_face_marker (payload r)" "success_marker (payload r)"
      "qqRequest_body r s = (Break, if rate_limit_marker (payload r) then backed_off (received r s) else received r s)"
  | (continue) "\<not> illegal_marker (payload r)" "\<not> no_face_marker (payload r)" "\<not> success_marker (payload r)"
      "qqRequest_body r s = (Next, if rate_limit_marker (payload r) then backed_off (received r s) else received r s)"
  using body_illegal body_no_face body_success body_next by blast

lemma loop_throw:
  "l_retry s < 100 \<Longrightarrow> qqRequest_body (post (posts s)) s = (Throw e, s') \<Longrightarrow>
   qqRequest_loop post s = Some (Some e, s')"
  by (subst qqRequest_loop.simps) simp

lemma loop_break:
  "l_retry s < 100 \<Longrightarrow> qqRequest_body (post (posts s)) s = (Break, s') \<Longrightarrow>
   qqRequest_loop post s = Some (None, s')"
  by (subst qqRequest_loop.simps) simp

lemma loop_next:
  "l_retry s < 100 \<Longrightarrow> qqRequest_body (post (posts s)) s = (Next, s') \<Longrightarrow>
   qqRequest_loop post s = qqRequest_loop post (s'\<lparr>l_retry := l_retry s' + 1\<rparr>)"
  by (subst qqRequest_loop.simps) simp

lemma loop_exit:
  "\<not> l_retry s < 100 \<Longrightarrow> qqRequest_loop post s = Some (None, s)"
  by (subst qqRequest_loop.simps) simp

lemma nonrl_attempts_step:
  "a < b \<Longrightarrow> nonrl_attempts post a b =
     (if rate_limit_marker (payload (post a)) then 0 else 1) + nonrl_attempts post (Suc a) b"
  by (simp add: nonrl_attempts_def upt_conv_Cons)

lemma nonrl_attempts_one:
  "nonrl_attempts post a (Suc a) = (if rate_limit_marker (payload (post a)) then 0 else 1)"
  by (simp add: nonrl_attempts_def)

lemma posts_received [simp]: "posts (received r s) = Suc (posts s)"
  by (simp add: received_def)

lemma retry_received [simp]: "l_retry (received r s) = l_retry s"
  by (simp add: received_def)

lemma slept_received [simp]: "slept (received r s) = slept s"
  by (simp add: received_def)

lemma posts_backed_off [simp]: "posts (backed_off s) = posts s"
  by (simp add: backed_off_def)

lemma retry_backed_off [simp]: "l_retry (backed_off s) = l_retry s - 1"
  by (simp add: backed_off_def)

lemma slept_backed_off [simp]: "slept (backed_off s) = slept s + 3000"
  by (simp add: backed_off_def)

lemma loop_bound:
  assumes "qqRequest_loop post s = Some y"
  shows "posts s \<le> posts (snd y) \<and>
     (l_retry s \<le> 100 \<longrightarrow> int (nonrl_attempts post (posts s) (posts (snd y))) \<le> 100 - l_retry s)"
  using assms
proof (induction rule: qqRequest_loop.raw_induct [rotated 1, consumes 1])
  case (1 f post s y)
  show ?case
  proof (cases "l_retry s < 100")
    case False
    with 1(2) have "y = (None, s)" by auto
    then show ?thesis by (simp add: nonrl_attempts_def)
  next
    case True
    let ?r = "post (posts s)"
    let ?t = "if rate_limit_marker (payload ?r) then backed_off (received ?r s) else received ?r s"
    show ?thesis
    proof (cases rule: body_cases [of ?r s])
      case illegal
      with True 1(2) have "y = (Some Censorship, received ?r s)" by simp
      with True show ?thesis by (simp add: nonrl_attempts_one)
    next
      case no_face
      with True 1(2) have "y = (Some NoFace, ?t)" by simp
      with True show ?thesis by (simp add: nonrl_attempts_one)
    next
      case success
      with True 1(2) have "y = (None, ?t)" by simp
      with True show ?thesis by (simp add: nonrl_attempts_one)
    next
      case continue
      with True 1(2) have rec: "f post (?t\<lparr>l_retry := l_retry ?t + 1\<rparr>) = Some y" by simp
      from 1(1) [OF rec] have
        le: "posts (?t\<lparr>l_retry := l_retry ?t + 1\<rparr>) \<le> posts (snd y)" and
        bd: "l_retry (?t\<lparr>l_retry := l_retry ?t + 1\<rparr>) \<le> 100 \<longrightarrow>
          int (nonrl_attempts post (posts (?t\<lparr>l_retry := l_retry ?t + 1\<rparr>)) (posts (snd y)))
            \<le> 100 - l_retry (?t\<lparr>l_retry := l_retry ?t + 1\<rparr>)"
        by blast+
      from le have lt: "posts s < posts (snd y)" by (simp split: if_splits)
      with bd True show ?thesis
        by (simp add: nonrl_attempts_step [OF lt] split: if_splits)
    qed
  qed
qed

lemma body_pure_rate_limit:
  "pure_rate_limit (payload r) \<Longrightarrow> qqRequest_body r s = (Next, backed_off (received r s))"
  using body_next [of r s] illegal_not_rate_limit [of "payload r"]
  by (auto simp: pure_rate_limit_def)

lemma loop_never_returns:
  assumes "qqRequest_loop post s = Some y"
  shows "\<not> ((\<forall>i. pure_rate_limit (payload (post i))) \<and> l_retry s < 100)"
  using assms
proof (induction rule: qqRequest_loop.raw_induct [rotated 1, consumes 1])
  case (1 f post s y)
  show ?case
  proof
    assume a: "(\<forall>i. pure_rate_limit (payload (post i))) \<and> l_retry s < 100"
    then have b: "qqRequest_body (post (posts s)) s = (Next, backed_off (received (post (posts s)) s))"
      by (simp add: body_pure_rate_limit)
    with a 1(2) have
      "f post ((backed_off (received (post (posts s)) s))\<lparr>l_retry := l_retry (backed_off (received (post (posts s)) s)) + 1\<rparr>) = Some y"
      by simp
    from 1(1) [OF this] a show False by simp
  qed
qed

lemma loop_diverges:
  "\<forall>i. pure_rate_limit (payload (post i)) \<Longrightarrow> l_retry s < 100 \<Longrightarrow> qqRequest_loop post s = None"
  using loop_never_returns [of post s] by (cases "qqRequest_loop post s") auto

lemma last_attempt_kept_step:
  "\<not> success_marker (payload (post (posts s))) \<Longrightarrow>
   last_attempt_kept post
     ((if c then backed_off (received (post (posts s)) s) else received (post (posts s)) s)
        \<lparr>l_retry := k\<rparr>)"
  by (simp add: last_attempt_kept_def received_def backed_off_def)

lemma loop_exhausts:
  assumes "qqRequest_loop post s = Some y"
  shows "posts s \<le> posts (snd y) \<and>
     ((\<forall>i. posts s \<le> i \<and> i < posts (snd y) \<longrightarrow> unclassified (payload (post i))) \<longrightarrow>
      l_retry s < 100 \<or> (l_retry s = 100 \<and> last_attempt_kept post s) \<longrightarrow>
      fst y = None \<and> l_retry (snd y) = 100 \<and> last_attempt_kept post (snd y))"
  using assms
proof (induction rule: qqRequest_loop.raw_induct [rotated 1, consumes 1])
  case (1 f post s y)
  show ?case
  proof (cases "l_retry s < 100")
    case False
    with 1(2) have "y = (None, s)" by auto
    with False show ?thesis by simp
  next
    case True
    let ?r = "post (posts s)"
    let ?t = "if rate_limit_marker (payload ?r) then backed_off (received ?r s) else received ?r s"
    show ?thesis
    proof (cases rule: body_cases [of ?r s])
      case illegal
      with True 1(2) have "y = (Some Censorship, received ?r s)" by simp
      with illegal(1) show ?thesis by (auto simp: unclassified_def)
    next
      case no_face
      with True 1(2) have "y = (Some NoFace, ?t)" by simp
      with no_face(2) show ?thesis by (auto simp: unclassified_def)
    next
      case success
      with True 1(2) have "y = (None, ?t)" by simp
      with success(3) show ?thesis by (auto simp: unclassified_def)
    next
      case continue
      let ?u = "?t\<lparr>l_retry := l_retry ?t + 1\<rparr>"
      from continue True 1(2) have rec: "f post ?u = Some y" by simp
      have pu: "posts ?u = Suc (posts s)" by simp
      have ru: "l_retry ?u \<le> 100" using True by simp
      have ku: "last_attempt_kept post ?u"
        using last_attempt_kept_step [of post s] continue(3) by simp
      from 1(1) [OF rec] have
        le: "posts ?u \<le> posts (snd y)" and
        ih: "(\<forall>i. posts ?u \<le> i \<and> i < posts (snd y) \<longrightarrow> unclassified (payload (post i))) \<longrightarrow>
          l_retry ?u < 100 \<or> (l_retry ?u = 100 \<and> last_attempt_kept post ?u) \<longrightarrow>
          fst y = None \<and> l_retry (snd y) = 100 \<and> last_attempt_kept post (snd y)"
        by blast+
      from le pu have lt: "posts s < posts (snd y)" by simp
      have pre: "l_retry ?u < 100 \<or> (l_retry ?u = 100 \<and> last_attempt_kept post ?u)"
        using ru ku by linarith
      show ?thesis
      proof (intro conjI impI)
        show "posts s \<le> posts (snd y)" using lt by simp
      next
        assume h: "\<forall>i. posts s \<le> i \<and> i < posts (snd y) \<longrightarrow> unclassified (payload (post i))"
        then have "\<forall>i. posts ?u \<le> i \<and> i < posts (snd y) \<longrightarrow> unclassified (payload (post i))"
          using pu by simp
        with ih pre show "fst y = None" "l_retry (snd y) = 100" "last_attempt_kept post (snd y)"
          by blast+
      qed
    qed
  qed
qed

lemma loop_head_same_result:
  "loop_head post s n = Some t \<Longrightarrow> qqRequest_loop post s = qqRequest_loop post t"
proof (induction n arbitrary: t)
  case 0
  then show ?case by simp
next
  case (Suc n)
  then obtain u where u: "loop_head post s n = Some u" by (auto split: option.splits)
  with Suc.prems have r: "l_retry u < 100" by (auto split: if_splits)
  from Suc.prems u r obtain t' where
    b: "qqRequest_body (post (posts u)) u = (Next, t')" and t: "t = t'\<lparr>l_retry := l_retry t' + 1\<rparr>"
    by (auto split: prod.splits flow.splits)
  from Suc.IH [OF u] loop_next [of u post t'] r b t show ?case by simp
qed

lemma loop_counts_unclassified:
  assumes "qqRequest_loop post s = Some y"
  shows "posts s \<le> posts (snd y) \<and>
     ((\<forall>i. posts s \<le> i \<and> i < posts (snd y) \<longrightarrow> unclassified (payload (post i))) \<longrightarrow>
      l_retry s \<le> 100 \<longrightarrow>
      int (nonrl_attempts post (posts s) (posts (snd y))) = 100 - l_retry s)"
  using assms
proof (induction rule: qqRequest_loop.raw_induct [rotated 1, consumes 1])
  case (1 f post s y)
  show ?case
  proof (cases "l_retry s < 100")
    case False
    with 1(2) have "y = (None, s)" by auto
    with False show ?thesis by (simp add: nonrl_attempts_def)
  next
    case True
    let ?r = "post (posts s)"
    let ?t = "if rate_limit_marker (payload ?r) then backed_off (received ?r s) else received ?r s"
    show ?thesis
    proof (cases rule: body_cases [of ?r s])
      case illegal
      with True 1(2) have "y = (Some Censorship, received ?r s)" by simp
      with illegal(1) show ?thesis by (auto simp: unclassified_def)
    next
      case no_face
      with True 1(2) have "y = (Some NoFace, ?t)" by simp
      with no_face(2) show ?thesis by (auto simp: unclassified_def)
    next
      case success
      with True 1(2) have "y = (None, ?t)" by simp
      with success(3) show ?thesis by (auto simp: unclassified_def)
    next
      case continue
      let ?u = "?t\<lparr>l_retry := l_retry ?t + 1\<rparr>"
      from continue True 1(2) have rec: "f post ?u = Some y" by simp
      have pu: "posts ?u = Suc (posts s)" by simp
      have ru: "l_retry ?u = l_retry s + (if rate_limit_marker (payload ?r) then 0 else 1)" by simp
      from 1(1) [OF rec] have
        le: "posts ?u \<le> posts (snd y)" and
        ih: "(\<forall>i. posts ?u \<le> i \<and> i < posts (snd y) \<longrightarrow> unclassified (payload (post i))) \<longrightarrow>
          l_retry ?u \<le> 100 \<longrightarrow>
          int (nonrl_attempts post (posts ?u) (posts (snd y))) = 100 - l_retry ?u"
        by blast+
      from le pu have lt: "posts s < posts (snd y)" by simp
      show ?thesis
      proof (intro conjI impI)
        show "posts s \<le> posts (snd y)" using lt by simp
      next
        assume h: "\<forall>i. posts s \<le> i \<and> i < posts (snd y) \<longrightarrow> unclassified (payload (post i))"
          and "l_retry s \<le> 100"
        from h pu have "\<forall>i. posts ?u \<le> i \<and> i < posts (snd y) \<longrightarrow> unclassified (payload (post i))"
          by simp
        moreover have "l_retry ?u \<le> 100" using True ru by (simp split: if_splits)
        ultimately have "int (nonrl_attempts post (posts ?u) (posts (snd y))) = 100 - l_retry ?u"
          using ih by blast
        then show "int (nonrl_attempts post (posts s) (posts (snd y))) = 100 - l_retry s"
          unfolding pu ru by (simp add: nonrl_attempts_step [OF lt] split: if_splits)
      qed
    qed
  qed
qed

lemma qqRequest_from_Some:
  "qqRequest_from parse post s = Some (res, s') \<Longrightarrow>
   \<exists>e. qqRequest_loop post s = Some (e, s') \<and>
     res = (case e of Some x \<Rightarrow> Inl x | None \<Rightarrow> qqRequest_return parse s')"
  by (auto simp: qqRequest_from_def split: option.splits prod.splits)

lemma return_exhausted:
  assumes "last_attempt_kept post s"
  shows "qqRequest_return parse s = Inl (Exhausted (payload (post (posts s - 1))))"
proof -
  from assms have "\<not> success_marker (l_data s)"
    and "l_response s = caught_response (post (posts s - 1))"
    unfolding last_attempt_kept_def by blast+
  then show ?thesis by (simp add: qqRequest_return_def success_marker_def payload_def)
qed

lemma nonrl_attempts_Suc:
  "a \<le> b \<Longrightarrow> nonrl_attempts post a (Suc b) =
     nonrl_attempts post a b + (if rate_limit_marker (payload (post b)) then 0 else 1)"
  by (simp add: nonrl_attempts_def)

lemma loop_head_counts:
  "loop_head post qq_init n = Some t \<Longrightarrow>
   posts t = n \<and> int (nonrl_attempts post 0 n) = l_retry t \<and> l_retry t \<le> 100"
proof (induction n arbitrary: t)
  case 0
  then show ?case by (auto simp: qq_init_def nonrl_attempts_def)
next
  case (Suc n)
  then obtain u where u: "loop_head post qq_init n = Some u" by (auto split: option.splits)
  with Suc.prems have lt: "l_retry u < 100" by (auto split: if_splits)
  from Suc.prems u lt obtain t' where
    b: "qqRequest_body (post (posts u)) u = (Next, t')" and t: "t = t'\<lparr>l_retry := l_retry t' + 1\<rparr>"
    by (auto split: prod.splits flow.splits)
  from Suc.IH [OF u] have ih: "posts u = n" "int (nonrl_attempts post 0 n) = l_retry u"
    by simp_all
  let ?r = "post (posts u)"
  have t': "t' = (if rate_limit_marker (payload ?r) then backed_off (received ?r u)
      else received ?r u)"
    using b by (cases rule: body_cases [of ?r u]) simp_all
  show ?case
    using ih lt unfolding t t' by (simp add: nonrl_attempts_Suc)
qed

lemma canned_markers:
  "illegal_marker (payload (canned fs)) = (map_of fs ''msg'' = Some (Str ''IMG_ILLEGAL''))"
  "rate_limit_marker (payload (canned fs)) = (map_of fs ''msg'' = Some (Str ''VOLUMN_LIMIT''))"
  "no_face_marker (payload (canned fs)) = (map_of fs ''code'' = Some (Num 1001))"
  "success_marker (payload (canned fs))
     = (case map_of fs ''extra'' of Some v \<Rightarrow> truthy v | None \<Rightarrow> False)"
  by (auto simp: illegal_marker_def rate_limit_marker_def no_face_marker_def success_marker_def
      payload_def canned_def split: option.splits)

lemma nonrl_attempts_mono:
  "j \<le> k \<Longrightarrow> nonrl_attempts post 0 j \<le> nonrl_attempts post 0 k"
proof (induction k)
  case 0
  then show ?case by simp
next
  case (Suc k)
  show ?case
  proof (cases "j = Suc k")
    case True
    then show ?thesis by simp
  next
    case False
    with Suc.prems have "j \<le> k" by simp
    with Suc.IH have "nonrl_attempts post 0 j \<le> nonrl_attempts post 0 k" by simp
    then show ?thesis by (simp add: nonrl_attempts_Suc)
  qed
qed

lemma loop_head_unclassified:
  assumes "\<forall>i<n. unclassified (payload (post i))"
    and "\<forall>j<n. nonrl_attempts post 0 j < 100"
  shows "k \<le> n \<Longrightarrow> \<exists>t. loop_head post qq_init k = Some t"
proof (induction k)
  case 0
  show ?case by simp
next
  case (Suc k)
  then obtain t where t: "loop_head post qq_init k = Some t" by auto
  from loop_head_counts [OF t] have c: "posts t = k" "int (nonrl_attempts post 0 k) = l_retry t"
    by simp_all
  from Suc.prems assms(2) have "nonrl_attempts post 0 k < 100" by simp
  with c have lt: "l_retry t < 100" by simp
  from Suc.prems assms(1) have "unclassified (payload (post k))" by simp
  then have "\<exists>t'. qqRequest_body (post (posts t)) t = (Next, t')"
    using body_next [of "post (posts t)" t] c(1) by (simp add: unclassified_def)
  with t lt show ?case by auto
qed

lemma exhaustion_returns:
  assumes u: "\<forall>i<n. unclassified (payload (post i))"
    and c: "nonrl_attempts post 0 n = 100"
    and l: "\<not> rate_limit_marker (payload (post (n - 1)))"
  shows "\<exists>s'. qqRequest parse post = Some (Inl (Exhausted (payload (post (n - 1)))), s') \<and>
     posts s' = n"
proof -
  have pos: "0 < n" using c by (cases n) (simp_all add: nonrl_attempts_def)
  then obtain m where m: "n = Suc m" by (cases n) simp_all
  from c l have m99: "nonrl_attempts post 0 m = 99"
    unfolding m using nonrl_attempts_Suc [of 0 m post] by simp
  have b: "\<forall>j<n. nonrl_attempts post 0 j < 100"
  proof (intro allI impI)
    fix j
    assume "j < n"
    then have "j \<le> m" unfolding m by simp
    from nonrl_attempts_mono [OF this, of post] m99
    show "nonrl_attempts post 0 j < 100" by simp
  qed
  from loop_head_unclassified [OF u b, of n] obtain t where
    t: "loop_head post qq_init n = Some t" by auto
  from loop_head_counts [OF t] c have tc: "posts t = n" "l_retry t = 100" by simp_all
  have lp: "qqRequest_loop post qq_init = Some (None, t)"
    using loop_head_same_result [OF t] loop_exit [of t post] tc(2) by simp
  from loop_exhausts [OF lp] u tc(1) have k: "last_attempt_kept post t"
    by (simp add: qq_init_def)
  have "qqRequest parse post = Some (Inl (Exhausted (payload (post (n - 1)))), t)"
    using lp tc(1) return_exhausted [OF k, of parse]
    by (simp add: qqRequest_def qqRequest_from_def)
  with tc(1) show ?thesis by blast
qed

lemma limited_then_busy_exhausts:
  "(\<forall>i<105. unclassified (payload (limited_then_busy i))) \<and>
   nonrl_attempts limited_then_busy 0 105 = 100 \<and>
   \<not> rate_limit_marker (payload (limited_then_busy 104))"
proof -
  have "unclassified (payload (limited_then_busy i))" for i
    by (simp add: limited_then_busy_def unclassified_def canned_markers)
  moreover have "nonrl_attempts limited_then_busy 0 105 = 100" by code_simp
  moreover have "\<not> rate_limit_marker (payload (limited_then_busy 104))"
    by (simp add: limited_then_busy_def canned_markers)
  ultimately show ?thesis by blast
qed

lemma limited_then_busy_last:
  "payload (limited_then_busy 104) = Obj [(''msg'', Str ''BUSY'')]"
  by (simp add: limited_then_busy_def payload_def canned_def)

text \<open>
  C7. The client makes at most 100 attempts that are not rate-limited: at the head of the
  loop after any number of passes, and at the end of every call that returns, at most 100
  of the requests issued so far carried no rate-limit marker. When no request of a call
  that returns was answered with a terminal marker or a result envelope, the budget is
  used up (exactly 100 attempts were not rate-limited) and the call fails with the error
  built from \<^verbatim>\<open>response?.data\<close> of the final attempt: the raw payload of that attempt, and
  \<^verbatim>\<open>undefined\<close> when that attempt failed without a response, whatever was received
  before. The call does return so whenever the budget is used up: when the answers up to
  and including the 100th one that is not rate-limited carry no terminal marker and no
  result envelope, with any number of rate limits among them, the call fails with that
  error right after the request that got this 100th answer.
\<close>

theorem attempt_ceiling:
  "(loop_head post qq_init n = Some t \<longrightarrow> posts t = n \<and> nonrl_attempts post 0 n \<le> 100) \<and>
   (qqRequest parse post = Some (res, s') \<longrightarrow>
      nonrl_attempts post 0 (posts s') \<le> 100 \<and>
      ((\<forall>i<posts s'. unclassified (payload (post i))) \<longrightarrow>
         nonrl_attempts post 0 (posts s') = 100 \<and>
         res = Inl (Exhausted (payload (post (posts s' - 1)))))) \<and>
   ((\<forall>i<m. unclassified (payload (post i))) \<and> nonrl_attempts post 0 m = 100 \<and>
    \<not> rate_limit_marker (payload (post (m - 1))) \<longrightarrow>
      (\<exists>s'. qqRequest parse post = Some (Inl (Exhausted (payload (post (m - 1)))), s') \<and>
         posts s' = m))"
proof (intro conjI impI)
  assume "loop_head post qq_init n = Some t"
  from loop_head_counts [OF this]
  show "posts t = n" "nonrl_attempts post 0 n \<le> 100" by simp_all
next
  assume a: "qqRequest parse post = Some (res, s')"
  then obtain e where l: "qqRequest_loop post qq_init = Some (e, s')"
    and r: "res = (case e of Some x \<Rightarrow> Inl x | None \<Rightarrow> qqRequest_return parse s')"
    using qqRequest_from_Some [of parse post qq_init res s'] by (auto simp: qqRequest_def)
  from loop_bound [OF l] show "nonrl_attempts post 0 (posts s') \<le> 100"
    by (simp add: qq_init_def)
  assume h: "\<forall>i<posts s'. unclassified (payload (post i))"
  from loop_counts_unclassified [OF l] h show "nonrl_attempts post 0 (posts s') = 100"
    by (simp add: qq_init_def)
  from loop_exhausts [OF l] h have "e = None" and k: "last_attempt_kept post s'"
    by (simp_all add: qq_init_def)
  with r show "res = Inl (Exhausted (payload (post (posts s' - 1))))"
    by (simp add: return_exhausted)
next
  assume "(\<forall>i<m. unclassified (payload (post i))) \<and> nonrl_attempts post 0 m = 100 \<and>
    \<not> rate_limit_marker (payload (post (m - 1)))"
  then show "\<exists>s'. qqRequest parse post = Some (Inl (Exhausted (payload (post (m - 1)))), s') \<and>
         posts s' = m"
    using exhaustion_returns [of m post parse] by blast
qed

theorem attempt_ceiling_witness:
  "(\<exists>s'. qqRequest canned_parse limited_then_busy
        = Some (Inl (Exhausted (Obj [(''msg'', Str ''BUSY'')])), s') \<and> posts s' = 105 \<and>
        nonrl_attempts limited_then_busy 0 (posts s') = 100) \<and>
   (\<exists>t. loop_head limited_then_busy qq_init 105 = Some t \<and>
      posts t = 105 \<and> nonrl_attempts limited_then_busy 0 105 \<le> 100)"
proof -
  note th = attempt_ceiling [where post = limited_then_busy and parse = canned_parse]
  have h: "(\<forall>i<105. unclassified (payload (limited_then_busy i))) \<and>
      nonrl_attempts limited_then_busy 0 105 = 100 \<and>
      \<not> rate_limit_marker (payload (limited_then_busy (105 - 1)))"
    using limited_then_busy_exhausts by simp
  from th [where m = 105, THEN conjunct2, THEN conjunct2] h obtain s' where
    s: "qqRequest canned_parse limited_then_busy
        = Some (Inl (Exhausted (payload (limited_then_busy (105 - 1)))), s')"
      "posts s' = 105" by blast
  have u: "\<forall>i<posts s'. unclassified (payload (limited_then_busy i))"
    using limited_then_busy_exhausts s(2) by simp
  from th [where res = "Inl (Exhausted (payload (limited_then_busy (105 - 1))))" and s' = s',
      THEN conjunct2, THEN conjunct1] s(1) u
  have c: "nonrl_attempts limited_then_busy 0 (posts s') = 100" by blast
  have b: "\<forall>j<105. nonrl_attempts limited_then_busy 0 j < 100"
  proof (intro allI impI)
    fix j :: nat
    assume "j < 105"
    then have "j \<le> 104" by simp
    from nonrl_attempts_mono [OF this, of limited_then_busy]
    have "nonrl_attempts limited_then_busy 0 j \<le> nonrl_attempts limited_then_busy 0 104" .
    moreover have "nonrl_attempts limited_then_busy 0 104 = 99" by code_simp
    ultimately show "nonrl_attempts limited_then_busy 0 j < 100" by simp
  qed
  from loop_head_unclassified [of 105 limited_then_busy 105] limited_then_busy_exhausts b
  obtain t where t: "loop_head limited_then_busy qq_init 105 = Some t" by auto
  with th [where n = 105 and t = t, THEN conjunct1]
  have "posts t = 105 \<and> nonrl_attempts limited_then_busy 0 105 \<le> 100" by blast
  with t s c limited_then_busy_last show ?thesis by auto
qed

text \<open>
  C7 as worded, with the error embedding the last payload received, does not hold. After
  99 unmarked payloads and a 100th request that fails without a response, the call fails
  with the error built from \<^verbatim>\<open>undefined\<close>; the last payload received, that of request 98,
  is not in it.
\<close>

theorem last_received_payload_dropped:
  "qqRequest canned_parse busy_then_offline
     = Some (Inl (Exhausted Undefined),
         \<lparr>l_retry = 100, posts = 100, slept = 0, l_response = None, l_data = Undefined\<rparr>) \<and>
   caught_response (busy_then_offline 99) = None \<and>
   payload (busy_then_offline 98) = Obj [(''msg'', Str ''BUSY'')] \<and>
   Exhausted Undefined \<noteq> Exhausted (Obj [(''msg'', Str ''BUSY'')])"
proof -
  have "qqRequest canned_parse busy_then_offline
     = Some (Inl (Exhausted Undefined),
         \<lparr>l_retry = 100, posts = 100, slept = 0, l_response = None, l_data = Undefined\<rparr>)"
    by code_simp
  moreover have "caught_response (busy_then_offline 99) = None"
    by (simp add: busy_then_offline_def)
  moreover have "payload (busy_then_offline 98) = Obj [(''msg'', Str ''BUSY'')]"
    by (simp add: busy_then_offline_def payload_def canned_def)
  ultimately show ?thesis by simp
qed

lemma from_throw:
  "l_retry s < 100 \<Longrightarrow> qqRequest_body (post (posts s)) s = (Throw e, s') \<Longrightarrow>
   qqRequest_from parse post s = Some (Inl e, s')"
  by (simp add: qqRequest_from_def loop_throw)

lemma from_break:
  "l_retry s < 100 \<Longrightarrow> qqRequest_body (post (posts s)) s = (Break, s') \<Longrightarrow>
   qqRequest_from parse post s = Some (qqRequest_return parse s', s')"
  by (simp add: qqRequest_from_def loop_break)

lemma from_next:
  "l_retry s < 100 \<Longrightarrow> qqRequest_body (post (posts s)) s = (Next, s') \<Longrightarrow>
   qqRequest_from parse post s = qqRequest_from parse post (s'\<lparr>l_retry := l_retry s' + 1\<rparr>)"
  by (simp add: qqRequest_from_def loop_next)

lemma data_received [simp]: "l_data (received r s) = payload r"
  by (simp add: received_def)

lemma data_backed_off [simp]: "l_data (backed_off s) = l_data s"
  by (simp add: backed_off_def)

lemma return_success:
  "success_marker (l_data s) \<Longrightarrow>
   qqRequest_return parse s = extract_urls parse (opt_prop (l_data s) ''extra'')"
  by (simp add: qqRequest_return_def success_marker_def)

lemma extract_urls_usable:
  assumes "parse x = Inr extra"
    and "opt_prop extra ''video_urls'' = Arr vs" and "opt_prop extra ''img_urls'' = Arr ims"
    and "0 < length vs" and "1 < length ims"
  shows "extract_urls parse x = Inr \<lparr>video = vs ! 0, img = ims ! 1\<rparr>"
proof -
  from assms(2) have "extra \<noteq> Undefined" "extra \<noteq> Null" by auto
  then have g: "get_prop extra k = Inr (opt_prop extra k)" for k
    by (cases extra) simp_all
  show ?thesis using assms by (simp add: extract_urls_def g)
qed

text \<open>
  C5. When the loop is running and the next payload carries a result envelope (a truthy
  \<^verbatim>\<open>extra\<close>, no illegal-content marker, no no-face code) that is usable (\<^verbatim>\<open>JSON.parse\<close>
  accepts it, and the parsed value has a list \<^verbatim>\<open>video_urls\<close> with an index 0 and a list
  \<^verbatim>\<open>img_urls\<close> with an index 1), the call returns the video URL from index 0 of the first
  list and the image URL from index 1 of the second, and issues no request after that one.
\<close>

theorem success_returns_urls:
  assumes "l_retry s < 100"
    and "d = payload (post (posts s))"
    and "\<not> illegal_marker d" and "\<not> no_face_marker d" and "success_marker d"
    and "parse (opt_prop d ''extra'') = Inr extra"
    and "opt_prop extra ''video_urls'' = Arr vs" and "opt_prop extra ''img_urls'' = Arr ims"
    and "0 < length vs" and "1 < length ims"
  shows "\<exists>s'. qqRequest_from parse post s = Some (Inr \<lparr>video = vs ! 0, img = ims ! 1\<rparr>, s') \<and>
     posts s' = posts s + 1"
proof -
  let ?r = "post (posts s)"
  let ?t = "if rate_limit_marker (payload ?r) then backed_off (received ?r s) else received ?r s"
  have b: "qqRequest_body ?r s = (Break, ?t)"
    using body_success [of ?r s] assms(2-5) by simp
  have d: "l_data ?t = d" using assms(2) by simp
  have "qqRequest_return parse ?t = Inr \<lparr>video = vs ! 0, img = ims ! 1\<rparr>"
    using return_success [of ?t parse]
      extract_urls_usable [of parse "opt_prop d ''extra''" extra vs ims] assms(5-10)
    unfolding d by simp
  with from_break [of s post ?t parse] assms(1) b show ?thesis by simp
qed

theorem success_returns_urls_witness:
  "\<exists>s'. qqRequest canned_parse (\<lambda>i. canned [(''code'', Num 0), (''extra'', Str ''ENVELOPE'')])
       = Some (Inr \<lparr>video = Str ''v.mp4'', img = Str ''out.jpg''\<rparr>, s') \<and> posts s' = 1"
proof -
  let ?d = "Obj [(''code'', Num 0), (''extra'', Str ''ENVELOPE'')]"
  have "\<exists>s'. qqRequest_from canned_parse (\<lambda>i. canned [(''code'', Num 0), (''extra'', Str ''ENVELOPE'')]) qq_init
      = Some (Inr \<lparr>video = [Str ''v.mp4''] ! 0, img = [Str ''ignored'', Str ''out.jpg''] ! 1\<rparr>, s')
      \<and> posts s' = posts qq_init + 1"
    by (rule success_returns_urls [where d = ?d
          and extra = "Obj [(''video_urls'', Arr [Str ''v.mp4'']),
                     (''img_urls'', Arr [Str ''ignored'', Str ''out.jpg''])]"])
      (simp_all add: payload_def canned_def illegal_marker_def no_face_marker_def
        success_marker_def canned_parse_def qq_init_def)
  then show ?thesis by (simp add: qqRequest_def qq_init_def)
qed

lemma body_rate_limit_state:
  assumes "rate_limit_marker (payload r)"
  shows "snd (qqRequest_body r s) = backed_off (received r s)"
proof (cases rule: body_cases [of r s])
  case illegal
  with assms illegal_not_rate_limit show ?thesis by blast
qed (use assms in simp_all)

lemma loop_head_rate_limited_prefix:
  assumes "\<forall>i<n. pure_rate_limit (payload (post i))"
  shows "k \<le> n \<Longrightarrow>
    \<exists>t. loop_head post qq_init k = Some t \<and> l_retry t = 0 \<and> posts t = k \<and> slept t = 3000 * k"
proof (induction k)
  case 0
  then show ?case by (simp add: qq_init_def)
next
  case (Suc k)
  then obtain t where t: "loop_head post qq_init k = Some t" "l_retry t = 0" "posts t = k"
    "slept t = 3000 * k" by auto
  have "qqRequest_body (post (posts t)) t = (Next, backed_off (received (post (posts t)) t))"
    using assms Suc.prems t(3) by (simp add: body_pure_rate_limit)
  with t show ?case by simp
qed

lemma loop_rate_limited_keeps_budget:
  assumes "qqRequest_loop post s = Some y"
  shows "(\<forall>i. rate_limit_marker (payload (post i))) \<longrightarrow> l_retry s < 100 \<longrightarrow>
     l_retry (snd y) = l_retry s - 1 \<and>
     (fst y = Some NoFace \<or> (fst y = None \<and> success_marker (l_data (snd y))))"
  using assms
proof (induction rule: qqRequest_loop.raw_induct [rotated 1, consumes 1])
  case (1 f post s y)
  show ?case
  proof (intro impI)
    assume rl: "\<forall>i. rate_limit_marker (payload (post i))" and lt: "l_retry s < 100"
    let ?r = "post (posts s)"
    let ?t = "backed_off (received ?r s)"
    from rl have m: "rate_limit_marker (payload ?r)" by simp
    show "l_retry (snd y) = l_retry s - 1 \<and>
      (fst y = Some NoFace \<or> (fst y = None \<and> success_marker (l_data (snd y))))"
    proof (cases rule: body_cases [of ?r s])
      case illegal
      with m illegal_not_rate_limit show ?thesis by blast
    next
      case no_face
      with lt m 1(2) have "y = (Some NoFace, ?t)" by simp
      then show ?thesis by simp
    next
      case success
      with lt m 1(2) have "y = (None, ?t)" by simp
      with success(3) show ?thesis by simp
    next
      case continue
      with lt m 1(2) have rec: "f post (?t\<lparr>l_retry := l_retry ?t + 1\<rparr>) = Some y" by simp
      from 1(1) [OF rec] rl lt show ?thesis by simp
    qed
  qed
qed

text \<open>
  C4. Rate-limited responses are free retries. Every payload with the rate-limit marker
  leaves the counter one lower after the body (so unchanged after the increment of the
  loop) and adds a sleep of 3000 ms; when it carries no other marker the body goes on to
  the next pass, with no exception. After \<open>n\<close> rate-limit payloads in a row the loop is
  at its head again with the counter at 0, \<open>n\<close> requests made and \<open>3000 * n\<close> ms slept, and
  the call has the result of the call continued from there. Against a remote side that
  answers every request with a rate-limit payload the call never returns: neither the
  exhaustion error nor any other error reaches the caller. And when every payload carries
  the rate-limit marker, whatever else it carries, a call that does return has left the
  loop inside its body with the counter at \<open>-1\<close>, by the no-face exception or with what
  is extracted from a result envelope: the budget was never spent, and the exhaustion
  error is not what the caller gets.
\<close>

theorem rate_limit_is_free_retry:
  "(rate_limit_marker (payload r) \<longrightarrow>
      l_retry (snd (qqRequest_body r s)) = l_retry s - 1 \<and>
      slept (snd (qqRequest_body r s)) = slept s + 3000) \<and>
   (pure_rate_limit (payload r) \<longrightarrow> fst (qqRequest_body r s) = Next) \<and>
   ((\<forall>i<n. pure_rate_limit (payload (post i))) \<longrightarrow>
      (\<exists>t. loop_head post qq_init n = Some t \<and> l_retry t = 0 \<and> posts t = n \<and>
         slept t = 3000 * n \<and> qqRequest_from parse post qq_init = qqRequest_from parse post t)) \<and>
   ((\<forall>i. pure_rate_limit (payload (post i))) \<longrightarrow> qqRequest parse post = None) \<and>
   ((\<forall>i. rate_limit_marker (payload (post' i))) \<and> qqRequest parse post' = Some (res, s') \<longrightarrow>
      l_retry s' = - 1 \<and>
      (res = Inl NoFace \<or> res = extract_urls parse (opt_prop (l_data s') ''extra'')))"
proof (intro conjI impI)
  assume "rate_limit_marker (payload r)"
  then have e: "snd (qqRequest_body r s) = backed_off (received r s)"
    by (rule body_rate_limit_state)
  show "l_retry (snd (qqRequest_body r s)) = l_retry s - 1" unfolding e by simp
  show "slept (snd (qqRequest_body r s)) = slept s + 3000" unfolding e by simp
next
  assume "pure_rate_limit (payload r)"
  then show "fst (qqRequest_body r s) = Next" by (simp add: body_pure_rate_limit)
next
  assume "\<forall>i<n. pure_rate_limit (payload (post i))"
  from loop_head_rate_limited_prefix [OF this, of n] obtain t where
    t: "loop_head post qq_init n = Some t" "l_retry t = 0" "posts t = n" "slept t = 3000 * n"
    by auto
  from loop_head_same_result [OF t(1)]
  have "qqRequest_from parse post qq_init = qqRequest_from parse post t"
    by (simp add: qqRequest_from_def)
  with t show "\<exists>t. loop_head post qq_init n = Some t \<and> l_retry t = 0 \<and> posts t = n \<and>
         slept t = 3000 * n \<and> qqRequest_from parse post qq_init = qqRequest_from parse post t"
    by blast
next
  assume "\<forall>i. pure_rate_limit (payload (post i))"
  then have "qqRequest_loop post qq_init = None"
    by (rule loop_diverges) (simp add: qq_init_def)
  then show "qqRequest parse post = None"
    by (simp add: qqRequest_def qqRequest_from_def)
next
  assume a: "(\<forall>i. rate_limit_marker (payload (post' i))) \<and> qqRequest parse post' = Some (res, s')"
  then obtain e where l: "qqRequest_loop post' qq_init = Some (e, s')"
    and r: "res = (case e of Some x \<Rightarrow> Inl x | None \<Rightarrow> qqRequest_return parse s')"
    using qqRequest_from_Some [of parse post' qq_init res s'] by (auto simp: qqRequest_def)
  from loop_rate_limited_keeps_budget [OF l] a have
    k: "l_retry s' = - 1" and c: "e = Some NoFace \<or> (e = None \<and> success_marker (l_data s'))"
    by (simp_all add: qq_init_def)
  from k show "l_retry s' = - 1" .
  from c r return_success [of s' parse]
  show "res = Inl NoFace \<or> res = extract_urls parse (opt_prop (l_data s') ''extra'')"
    by auto
qed

lemma volumn_limit_pure: "pure_rate_limit (payload (canned [(''msg'', Str ''VOLUMN_LIMIT'')]))"
  by (simp add: pure_rate_limit_def rate_limit_marker_def no_face_marker_def success_marker_def
      payload_def canned_def)

theorem rate_limit_is_free_retry_witness:
  "l_retry (snd (qqRequest_body (canned [(''msg'', Str ''VOLUMN_LIMIT'')]) qq_init)) = 0 - 1 \<and>
   slept (snd (qqRequest_body (canned [(''msg'', Str ''VOLUMN_LIMIT'')]) qq_init)) = 3000 \<and>
   fst (qqRequest_body (canned [(''msg'', Str ''VOLUMN_LIMIT'')]) qq_init) = Next \<and>
   (\<exists>t. loop_head (\<lambda>i. canned [(''msg'', Str ''VOLUMN_LIMIT'')]) qq_init 250 = Some t \<and>
      l_retry t = 0 \<and> posts t = 250 \<and> slept t = 750000) \<and>
   qqRequest canned_parse (\<lambda>i. canned [(''msg'', Str ''VOLUMN_LIMIT'')]) = None \<and>
   (\<exists>s'. qqRequest canned_parse
        (\<lambda>i. canned [(''msg'', Str ''VOLUMN_LIMIT''), (''code'', Num 1001)])
      = Some (Inl NoFace, s') \<and> l_retry s' = - 1)"
proof -
  let ?rl = "canned [(''msg'', Str ''VOLUMN_LIMIT'')]"
  let ?both = "canned [(''msg'', Str ''VOLUMN_LIMIT''), (''code'', Num 1001)]"
  have b: "\<forall>i::nat. rate_limit_marker (payload ?both)"
    by (simp add: rate_limit_marker_def payload_def canned_def)
  have "qqRequest_loop (\<lambda>i. ?both) qq_init
      = Some (Some NoFace, backed_off (received ?both qq_init))"
    by (rule loop_throw)
      (simp_all add: qq_init_def qqRequest_body_def canned_def backed_off_def received_def
        payload_def)
  then have q: "qqRequest canned_parse (\<lambda>i. ?both)
      = Some (Inl NoFace, backed_off (received ?both qq_init))"
    by (simp add: qqRequest_def qqRequest_from_def)
  note th = rate_limit_is_free_retry [of ?rl qq_init 250 "\<lambda>i. ?rl" canned_parse "\<lambda>i. ?both"
      "Inl NoFace" "backed_off (received ?both qq_init)"]
  from th b q have 5: "l_retry (backed_off (received ?both qq_init)) = - 1" by blast
  from th volumn_limit_pure have
    "l_retry (snd (qqRequest_body ?rl qq_init)) = l_retry qq_init - 1"
    "slept (snd (qqRequest_body ?rl qq_init)) = slept qq_init + 3000"
    "fst (qqRequest_body ?rl qq_init) = Next"
    "\<exists>t. loop_head (\<lambda>i. ?rl) qq_init 250 = Some t \<and>
      l_retry t = 0 \<and> posts t = 250 \<and> slept t = 3000 * 250"
    "qqRequest canned_parse (\<lambda>i. ?rl) = None"
    by (auto simp: pure_rate_limit_def)
  with q 5 show ?thesis by (simp add: qq_init_def)
qed

text \<open>
  C6. The classification of a payload that shows exactly one marker, received while the
  loop is running: only the illegal-content marker, the call fails with the censorship
  error; only the rate-limit marker, the body backs off and the call goes on with the
  counter unchanged and 3000 ms more slept; only the no-face code 1001, the call fails with
  the no-face error; only a result envelope, the call ends with what is extracted from the
  envelope; no marker at all, the call goes on with the counter one higher. The five
  outcomes are different values, so no payload of one class gets the outcome of another.
\<close>

theorem classification_exclusive:
  assumes "l_retry s < 100" and "r = post (posts s)" and "d = payload r"
  shows
   "(illegal_marker d \<and> \<not> rate_limit_marker d \<and> \<not> no_face_marker d \<and> \<not> success_marker d \<longrightarrow>
       qqRequest_from parse post s = Some (Inl Censorship, received r s)) \<and>
    (rate_limit_marker d \<and> \<not> illegal_marker d \<and> \<not> no_face_marker d \<and> \<not> success_marker d \<longrightarrow>
       qqRequest_body r s = (Next, backed_off (received r s)) \<and>
       qqRequest_from parse post s
         = qqRequest_from parse post ((received r s)\<lparr>slept := slept s + 3000\<rparr>)) \<and>
    (no_face_marker d \<and> \<not> illegal_marker d \<and> \<not> rate_limit_marker d \<and> \<not> success_marker d \<longrightarrow>
       qqRequest_from parse post s = Some (Inl NoFace, received r s)) \<and>
    (success_marker d \<and> \<not> illegal_marker d \<and> \<not> rate_limit_marker d \<and> \<not> no_face_marker d \<longrightarrow>
       qqRequest_from parse post s
         = Some (extract_urls parse (opt_prop d ''extra''), received r s)) \<and>
    (\<not> illegal_marker d \<and> \<not> rate_limit_marker d \<and> \<not> no_face_marker d \<and> \<not> success_marker d \<longrightarrow>
       qqRequest_body r s = (Next, received r s) \<and>
       qqRequest_from parse post s
         = qqRequest_from parse post ((received r s)\<lparr>l_retry := l_retry s + 1\<rparr>))"
proof (intro conjI impI; (elim conjE)?)
  assume "illegal_marker d"
  then have "qqRequest_body (post (posts s)) s = (Throw Censorship, received r s)"
    using assms(2,3) body_illegal [of r s] by simp
  with from_throw [of s post Censorship "received r s" parse] assms(1)
  show "qqRequest_from parse post s = Some (Inl Censorship, received r s)" by simp
next
  assume a: "rate_limit_marker d" "\<not> illegal_marker d" "\<not> no_face_marker d" "\<not> success_marker d"
  then show b: "qqRequest_body r s = (Next, backed_off (received r s))"
    using assms(3) body_next [of r s] by simp
  have "(backed_off (received r s))\<lparr>l_retry := l_retry (backed_off (received r s)) + 1\<rparr>
      = (received r s)\<lparr>slept := slept s + 3000\<rparr>"
    by (simp add: backed_off_def received_def)
  with from_next [of s post "backed_off (received r s)" parse] assms(1,2) b
  show "qqRequest_from parse post s
      = qqRequest_from parse post ((received r s)\<lparr>slept := slept s + 3000\<rparr>)" by simp
next
  assume "no_face_marker d" "\<not> illegal_marker d" "\<not> rate_limit_marker d"
  then have "qqRequest_body (post (posts s)) s = (Throw NoFace, received r s)"
    using assms(2,3) body_no_face [of r s] by simp
  with from_throw [of s post NoFace "received r s" parse] assms(1)
  show "qqRequest_from parse post s = Some (Inl NoFace, received r s)" by simp
next
  assume a: "success_marker d" "\<not> illegal_marker d" "\<not> rate_limit_marker d" "\<not> no_face_marker d"
  then have b: "qqRequest_body (post (posts s)) s = (Break, received r s)"
    using assms(2,3) body_success [of r s] by simp
  have "qqRequest_return parse (received r s) = extract_urls parse (opt_prop d ''extra'')"
    using return_success [of "received r s" parse] a(1) assms(3) by simp
  with from_break [of s post "received r s" parse] assms(1) b
  show "qqRequest_from parse post s
      = Some (extract_urls parse (opt_prop d ''extra''), received r s)" by simp
next
  assume a: "\<not> illegal_marker d" "\<not> rate_limit_marker d" "\<not> no_face_marker d" "\<not> success_marker d"
  then show b: "qqRequest_body r s = (Next, received r s)"
    using assms(3) body_next [of r s] by simp
  have "(received r s)\<lparr>l_retry := l_retry (received r s) + 1\<rparr> = (received r s)\<lparr>l_retry := l_retry s + 1\<rparr>"
    by simp
  with from_next [of s post "received r s" parse] assms(1,2) b
  show "qqRequest_from parse post s
      = qqRequest_from parse post ((received r s)\<lparr>l_retry := l_retry s + 1\<rparr>)" by simp
qed

theorem classification_exclusive_witness:
  "qqRequest canned_parse (\<lambda>i. canned [(''msg'', Str ''IMG_ILLEGAL'')])
     = Some (Inl Censorship, received (canned [(''msg'', Str ''IMG_ILLEGAL'')]) qq_init) \<and>
   qqRequest_body (canned [(''msg'', Str ''VOLUMN_LIMIT'')]) qq_init
     = (Next, backed_off (received (canned [(''msg'', Str ''VOLUMN_LIMIT'')]) qq_init)) \<and>
   qqRequest canned_parse (\<lambda>i. canned [(''code'', Num 1001)])
     = Some (Inl NoFace, received (canned [(''code'', Num 1001)]) qq_init) \<and>
   qqRequest canned_parse (\<lambda>i. canned [(''extra'', Str ''ENVELOPE'')])
     = Some (Inr \<lparr>video = Str ''v.mp4'', img = Str ''out.jpg''\<rparr>,
         received (canned [(''extra'', Str ''ENVELOPE'')]) qq_init) \<and>
   qqRequest_body (canned [(''msg'', Str ''BUSY'')]) qq_init
     = (Next, received (canned [(''msg'', Str ''BUSY'')]) qq_init)"
proof -
  have z: "l_retry qq_init < 100" "posts qq_init = 0" by (simp_all add: qq_init_def)
  have x: "extract_urls canned_parse (Str ''ENVELOPE'')
      = Inr \<lparr>video = Str ''v.mp4'', img = Str ''out.jpg''\<rparr>"
    by (simp add: extract_urls_def canned_parse_def)
  have p: "opt_prop (payload (canned [(''extra'', Str ''ENVELOPE'')])) ''extra'' = Str ''ENVELOPE''"
    by (simp add: payload_def canned_def)
  note c = classification_exclusive [where s = qq_init and parse = canned_parse, OF z(1) refl refl]
  have 1: "qqRequest canned_parse (\<lambda>i. canned [(''msg'', Str ''IMG_ILLEGAL'')])
     = Some (Inl Censorship, received (canned [(''msg'', Str ''IMG_ILLEGAL'')]) qq_init)"
    using c [of "\<lambda>i. canned [(''msg'', Str ''IMG_ILLEGAL'')]"]
    by (simp add: canned_markers qqRequest_def)
  have 2: "qqRequest_body (canned [(''msg'', Str ''VOLUMN_LIMIT'')]) qq_init
     = (Next, backed_off (received (canned [(''msg'', Str ''VOLUMN_LIMIT'')]) qq_init))"
    using c [of "\<lambda>i. canned [(''msg'', Str ''VOLUMN_LIMIT'')]"]
    by (simp add: canned_markers)
  have 3: "qqRequest canned_parse (\<lambda>i. canned [(''code'', Num 1001)])
     = Some (Inl NoFace, received (canned [(''code'', Num 1001)]) qq_init)"
    using c [of "\<lambda>i. canned [(''code'', Num 1001)]"]
    by (simp add: canned_markers qqRequest_def)
  have 4: "qqRequest canned_parse (\<lambda>i. canned [(''extra'', Str ''ENVELOPE'')])
     = Some (Inr \<lparr>video = Str ''v.mp4'', img = Str ''out.jpg''\<rparr>,
         received (canned [(''extra'', Str ''ENVELOPE'')]) qq_init)"
    using c [of "\<lambda>i. canned [(''extra'', Str ''ENVELOPE'')]"] x p
    by (simp add: canned_markers qqRequest_def)
  have 5: "qqRequest_body (canned [(''msg'', Str ''BUSY'')]) qq_init
     = (Next, received (canned [(''msg'', Str ''BUSY'')]) qq_init)"
    using c [of "\<lambda>i. canned [(''msg'', Str ''BUSY'')]"]
    by (simp add: canned_markers)
  from 1 2 3 4 5 show ?thesis by blast
qed

section \<open>Properties of the session list\<close>

lemma findIndex_from_found:
  "\<forall>y\<in>set ys. \<not> P y \<Longrightarrow> P z \<Longrightarrow> findIndex_from P (ys @ z # zs) i = i + int (length ys)"
  by (induction ys arbitrary: i) auto


lemma splice_one_at:
  "splice (int (length ys)) 1 (ys @ z # zs) = ys @ zs"
proof -
  have "nat (int (length ys) + 1) = Suc (length ys)" by simp
  then show ?thesis by (simp add: splice_def Let_def)
qed


lemma release_present:
  assumes "\<forall>y\<in>set ys. userId y \<noteq> uid" and "userId z = uid"
  shows "release (ys @ z # zs) uid = ys @ zs"
  using findIndex_from_found [of ys "\<lambda>s. userId s = uid" z zs 0] assms
  by (simp add: release_def findIndex_def splice_one_at)


lemma admit_present:
  "\<exists>s\<in>set us. userId s = userId sess \<Longrightarrow> admit us sess = (AlreadyQueued, us)"
  by (cases "find (\<lambda>session. userId session = userId sess) us")
    (auto simp: admit_def find_None_iff)

lemma admit_absent:
  "\<forall>s\<in>set us. userId s \<noteq> userId sess \<Longrightarrow> admit us sess = (Admitted, us @ [sess])"
  by (cases "find (\<lambda>session. userId session = userId sess) us")
    (auto simp: admit_def find_Some_iff)

lemma release_distinct:
  assumes "distinct (map userId us)" and "uid \<in> set (map userId us)"
  shows "distinct (map userId (release us uid)) \<and>
     set (map userId (release us uid)) = set (map userId us) - {uid}"
proof -
  from assms(2) have "\<exists>s\<in>set us. userId s = uid" by auto
  then obtain ys z zs where
    sp: "us = ys @ z # zs" "userId z = uid" "\<forall>y\<in>set ys. userId y \<noteq> uid"
    using split_list_first_prop [of us "\<lambda>s. userId s = uid"] by blast
  then have r: "release us uid = ys @ zs" by (simp add: release_present)
  from assms(1) sp show ?thesis unfolding r by auto
qed

lemma registry_ok_photo: "registry_ok \<sigma> \<Longrightarrow> registry_ok (on_photo \<sigma> sess)"
proof (cases "\<exists>s\<in>set (registry \<sigma>). userId s = userId sess")
  case True
  assume "registry_ok \<sigma>"
  with True show ?thesis by (simp add: on_photo_def admit_present)
next
  case False
  assume ok: "registry_ok \<sigma>"
  from False have a: "admit (registry \<sigma>) sess = (Admitted, registry \<sigma> @ [sess])"
    by (simp add: admit_absent)
  from False have n: "userId sess \<notin> set (map userId (registry \<sigma>))" by auto
  with ok have "userId sess \<notin> set (running \<sigma>)" by (simp add: registry_ok_def)
  with n ok a show ?thesis by (simp add: on_photo_def registry_ok_def)
qed

lemma registry_ok_finished:
  assumes "registry_ok \<sigma>" and "uid \<in> set (running \<sigma>)"
  shows "registry_ok (on_finished \<sigma> uid)"
proof -
  from assms have d: "distinct (map userId (registry \<sigma>))"
    and m: "uid \<in> set (map userId (registry \<sigma>))"
    by (simp_all add: registry_ok_def)
  from release_distinct [OF d m] assms(1) show ?thesis
    by (simp add: registry_ok_def on_finished_def)
qed

lemma run_registry_ok: "registry_ok (run evs)"
proof (induction evs rule: rev_induct)
  case Nil
  show ?case by (simp add: run_def registry_ok_def)
next
  case (snoc ev evs)
  have "run (evs @ [ev]) = step (run evs) ev" by (simp add: run_def)
  with snoc show ?case
    by (cases ev) (simp_all add: registry_ok_photo registry_ok_finished)
qed

lemma distinct_at_most_one:
  "distinct (map f xs) \<Longrightarrow> length (filter (\<lambda>s. f s = u) xs) \<le> 1"
proof (induction xs)
  case Nil
  show ?case by simp
next
  case (Cons x xs)
  show ?case
  proof (cases "f x = u")
    case True
    from Cons.prems have nx: "f x \<notin> set (map f xs)" by simp
    have "f s \<noteq> u" if "s \<in> set xs" for s
    proof
      assume "f s = u"
      with True that have "f x \<in> set (map f xs)" by (simp add: image_iff) metis
      with nx show False by contradiction
    qed
    then have "\<forall>s\<in>set xs. f s \<noteq> u" by blast
    then have "filter (\<lambda>s. f s = u) xs = []" by (simp add: filter_empty_conv)
    with True show ?thesis by simp
  next
    case False
    with Cons show ?thesis by simp
  qed
qed

text \<open>
  C1. Single flight per user, in the state after any sequence of events: the array holds
  at most one entry for each user; a user has a run in flight exactly when the array holds
  an entry for that user; while it does, a further photo of that user is not admitted (the
  array and the state stay as they are, and the user is told to wait); and once the run
  has released the session, the user is admitted again.
\<close>

theorem single_flight:
  assumes "\<sigma> = run evs"
  shows "(\<forall>u. length (filter (\<lambda>s. userId s = u) (registry \<sigma>)) \<le> 1) \<and>
     (\<forall>u. (u \<in> set (running \<sigma>)) = (\<exists>s\<in>set (registry \<sigma>). userId s = u)) \<and>
     (\<forall>sess. userId sess \<in> set (running \<sigma>) \<longrightarrow>
        admit (registry \<sigma>) sess = (AlreadyQueued, registry \<sigma>) \<and>
        on_photo \<sigma> sess = \<sigma> \<and>
        (\<forall>env. addUserSession env (registry \<sigma>) sess
           = Some (send env (ctx sess) MsgAlreadyQueued, registry \<sigma>, [MsgAlreadyQueued])) \<and>
        admit (registry (on_finished \<sigma> (userId sess))) sess
          = (Admitted, registry (on_finished \<sigma> (userId sess)) @ [sess]))"
proof -
  from assms have ok: "registry_ok \<sigma>" by (simp add: run_registry_ok)
  then have d: "distinct (map userId (registry \<sigma>))"
    and e: "set (map userId (registry \<sigma>)) = set (running \<sigma>)"
    by (simp_all add: registry_ok_def)
  have one: "\<forall>u. length (filter (\<lambda>s. userId s = u) (registry \<sigma>)) \<le> 1"
    using distinct_at_most_one [OF d] by blast
  have act: "\<forall>u. (u \<in> set (running \<sigma>)) = (\<exists>s\<in>set (registry \<sigma>). userId s = u)"
  proof
    fix u
    have "(u \<in> set (running \<sigma>)) = (u \<in> set (map userId (registry \<sigma>)))"
      using e by simp
    also have "\<dots> = (\<exists>s\<in>set (registry \<sigma>). userId s = u)"
      by (simp add: image_iff) metis
    finally show "(u \<in> set (running \<sigma>)) = (\<exists>s\<in>set (registry \<sigma>). userId s = u)" .
  qed
  have adm: "admit (registry \<sigma>) sess = (AlreadyQueued, registry \<sigma>) \<and>
        on_photo \<sigma> sess = \<sigma> \<and>
        (\<forall>env. addUserSession env (registry \<sigma>) sess
           = Some (send env (ctx sess) MsgAlreadyQueued, registry \<sigma>, [MsgAlreadyQueued])) \<and>
        admit (registry (on_finished \<sigma> (userId sess))) sess
          = (Admitted, registry (on_finished \<sigma> (userId sess)) @ [sess])"
    if r: "userId sess \<in> set (running \<sigma>)" for sess
  proof -
    from r act have p: "\<exists>s\<in>set (registry \<sigma>). userId s = userId sess" by blast
    then have a: "admit (registry \<sigma>) sess = (AlreadyQueued, registry \<sigma>)"
      by (rule admit_present)
    from r e have m: "userId sess \<in> set (map userId (registry \<sigma>))" by simp
    from release_distinct [OF d m]
    have "\<forall>s\<in>set (release (registry \<sigma>) (userId sess)). userId s \<noteq> userId sess" by auto
    then have "admit (release (registry \<sigma>) (userId sess)) sess
        = (Admitted, release (registry \<sigma>) (userId sess) @ [sess])"
      by (rule admit_absent)
    with a show ?thesis by (simp add: on_photo_def addUserSession_def on_finished_def)
  qed
  from one act adm show ?thesis by blast
qed

lemma run_one_photo:
  "run [Photo \<lparr>userId = 42, ctx = 1, photoId = ''a''\<rparr>]
     = \<lparr>registry = [\<lparr>userId = 42, ctx = 1, photoId = ''a''\<rparr>], running = [42]\<rparr>"
  by (simp add: run_def on_photo_def admit_def)

theorem single_flight_witness:
  "length (filter (\<lambda>s. userId s = 42) [\<lparr>userId = 42, ctx = 1, photoId = ''a''\<rparr>]) \<le> 1 \<and>
   admit [\<lparr>userId = 42, ctx = 1, photoId = ''a''\<rparr>] \<lparr>userId = 42, ctx = 1, photoId = ''b''\<rparr>
     = (AlreadyQueued, [\<lparr>userId = 42, ctx = 1, photoId = ''a''\<rparr>]) \<and>
   addUserSession scenario_env [\<lparr>userId = 42, ctx = 1, photoId = ''a''\<rparr>]
       \<lparr>userId = 42, ctx = 1, photoId = ''b''\<rparr>
     = Some (None, [\<lparr>userId = 42, ctx = 1, photoId = ''a''\<rparr>], [MsgAlreadyQueued]) \<and>
   admit (release [\<lparr>userId = 42, ctx = 1, photoId = ''a''\<rparr>] 42)
       \<lparr>userId = 42, ctx = 1, photoId = ''b''\<rparr>
     = (Admitted, [\<lparr>userId = 42, ctx = 1, photoId = ''b''\<rparr>])"
proof -
  let ?a = "\<lparr>userId = 42, ctx = 1, photoId = ''a''\<rparr>"
  let ?b = "\<lparr>userId = 42, ctx = 1, photoId = ''b''\<rparr>"
  have r: "release [?a] 42 = []"
    using release_present [of "[]" 42 ?a "[]"] by simp
  from single_flight [OF run_one_photo [symmetric]] have
    "length (filter (\<lambda>s. userId s = 42) [?a]) \<le> 1"
    "admit [?a] ?b = (AlreadyQueued, [?a])"
    "addUserSession scenario_env [?a] ?b
       = Some (send scenario_env (ctx ?b) MsgAlreadyQueued, [?a], [MsgAlreadyQueued])"
    "admit (release [?a] 42) ?b = (Admitted, release [?a] 42 @ [?b])"
    by (simp_all add: on_finished_def)
  then show ?thesis using r by (simp add: scenario_env_def)
qed





section \<open>Properties of the run\<close>

lemma truthy_opt_data_Some: "truthy (opt_data r) \<Longrightarrow> r \<noteq> None"
  by (cases r) simp_all

lemma catch_ignore_None [simp]: "catch_ignore r = None"
  by (cases r) simp_all

lemma range_split:
  assumes "(k::nat) < n"
  shows "(\<forall>i. k \<le> i \<and> i < n \<longrightarrow> Q i) = (Q k \<and> (\<forall>i. k + 1 \<le> i \<and> i < n \<longrightarrow> Q i))"
proof
  assume a: "\<forall>i. k \<le> i \<and> i < n \<longrightarrow> Q i"
  from a assms have "Q k" by simp
  moreover have "\<forall>i. k + 1 \<le> i \<and> i < n \<longrightarrow> Q i" using a by simp
  ultimately show "Q k \<and> (\<forall>i. k + 1 \<le> i \<and> i < n \<longrightarrow> Q i)" by blast
next
  assume b: "Q k \<and> (\<forall>i. k + 1 \<le> i \<and> i < n \<longrightarrow> Q i)"
  show "\<forall>i. k \<le> i \<and> i < n \<longrightarrow> Q i"
  proof (intro allI impI)
    fix i
    assume "k \<le> i \<and> i < n"
    then have "i = k \<or> (k + 1 \<le> i \<and> i < n)" by linarith
    with b show "Q i" by blast
  qed
qed

lemma fetch_photo_loop_None:
  "(fetch_photo_loop get k resp = None) =
     (resp = None \<and> (\<forall>i. k \<le> i \<and> i < 100 \<longrightarrow> (\<exists>x. get i = Rejected x)))"
proof (induction "100 - k" arbitrary: k resp)
  case 0
  then have "\<not> k < 100" by simp
  then show ?case by (subst fetch_photo_loop.simps) auto
next
  case (Suc d)
  then have lt: "k < 100" by simp
  define r' where "r' = (case get k of Resolved r \<Rightarrow> Some r | Rejected e \<Rightarrow> resp)"
  define A where "A = (\<forall>i. k + 1 \<le> i \<and> i < 100 \<longrightarrow> (\<exists>x. get i = Rejected x))"
  define B where "B = (\<exists>x. get k = Rejected x)"
  have rng: "(\<forall>i. k \<le> i \<and> i < 100 \<longrightarrow> (\<exists>x. get i = Rejected x)) = (B \<and> A)"
    unfolding A_def B_def using lt by (rule range_split)
  have rn: "(r' = None) = (B \<and> resp = None)"
    unfolding r'_def B_def by (cases "get k") simp_all
  have ih: "(fetch_photo_loop get (k + 1) r' = None) = (r' = None \<and> A)"
    unfolding A_def using Suc.hyps(1) [of "k + 1" r'] Suc.hyps(2) by simp
  show ?case
  proof (cases "truthy (opt_data r')")
    case True
    then have "fetch_photo_loop get k resp = r'"
      using lt unfolding r'_def by (subst fetch_photo_loop.simps) (simp add: Let_def)
    moreover from True have "r' \<noteq> None" by (rule truthy_opt_data_Some)
    ultimately have "fetch_photo_loop get k resp \<noteq> None" "\<not> (B \<and> resp = None)"
      using rn by simp_all
    then show ?thesis unfolding rng by blast
  next
    case False
    then have "fetch_photo_loop get k resp = fetch_photo_loop get (k + 1) r'"
      using lt unfolding r'_def by (subst fetch_photo_loop.simps) (simp add: Let_def)
    with ih have "(fetch_photo_loop get k resp = None) = (r' = None \<and> A)" by simp
    then show ?thesis unfolding rng rn by (simp add: conj_ac)
  qed
qed

lemma fetch_photo_loop_falsy:
  assumes "\<forall>i<100. \<exists>r. get i = Resolved r \<and> \<not> truthy (data r)"
  shows "k < 100 \<Longrightarrow> fetch_photo_loop get k resp = caught_response (get 99)"
proof (induction "99 - k" arbitrary: k resp)
  case 0
  then have k: "k = 99" by simp
  from assms [rule_format, of 99] obtain r where
    r: "get 99 = Resolved r" "\<not> truthy (data r)" by auto
  have "fetch_photo_loop get 100 (Some r) = Some r"
    by (subst fetch_photo_loop.simps) simp
  with r show ?case unfolding k
    by (subst fetch_photo_loop.simps) simp
next
  case (Suc d)
  then have lt: "k + 1 < 100" by simp
  from assms [rule_format, of k] Suc.prems obtain r where
    r: "get k = Resolved r" "\<not> truthy (data r)" by auto
  have "fetch_photo_loop get (k + 1) (Some r) = caught_response (get 99)"
    using Suc.hyps(1) [of "k + 1"] Suc.hyps(2) lt by simp
  with r Suc.prems show ?case
    by (subst fetch_photo_loop.simps) simp
qed

text \<open>
  C10. The guard after the loop that loads the photo tests the response object only. The
  load error is raised exactly when all 100 requests were rejected, so no response object
  was ever stored. When every request resolved with a falsy body, the guard is passed with
  the last response. With the body absent the run then sends the first progress text and
  reads the body for the base64 encoding, which raises a TypeError: the user is told of
  that error, not of the failed load.
\<close>

theorem photo_guard_checks_response_only:
  "((fetch_photo get = Inl LoadFailed) = (\<forall>i<100. \<exists>x. get i = Rejected x)) \<and>
   ((\<forall>i<100. \<exists>r. get i = Resolved r \<and> \<not> truthy (data r)) \<longrightarrow>
      (\<exists>r. get 99 = Resolved r \<and> \<not> truthy (data r) \<and> fetch_photo get = Inr r)) \<and>
   (getFileLink env (photoId sess) = Inr url \<and>
    (\<forall>i<100. \<exists>r. photo_get env url i = Resolved r \<and> data r = Undefined) \<and>
    send env (ctx sess) MsgReceived = None \<longrightarrow>
      try_block env sess = Some (Some TypeError, [MsgReceived]) \<and>
      (\<forall>us. processUserSession env sess us
         = Some (None, release us (userId sess), [MsgReceived, MsgError TypeError])))"
proof (intro conjI impI)
  have "(fetch_photo get = Inl LoadFailed) = (fetch_photo_loop get 0 None = None)"
    by (simp add: fetch_photo_def split: option.splits)
  then show "(fetch_photo get = Inl LoadFailed) = (\<forall>i<100. \<exists>x. get i = Rejected x)"
    by (simp add: fetch_photo_loop_None)
next
  assume a: "\<forall>i<100. \<exists>r. get i = Resolved r \<and> \<not> truthy (data r)"
  from a [rule_format, of 99] obtain r where
    r: "get 99 = Resolved r" "\<not> truthy (data r)" by auto
  from fetch_photo_loop_falsy [OF a, of 0 None] r have "fetch_photo get = Inr r"
    by (simp add: fetch_photo_def)
  with r show "\<exists>r. get 99 = Resolved r \<and> \<not> truthy (data r) \<and> fetch_photo get = Inr r"
    by blast
next
  assume a: "getFileLink env (photoId sess) = Inr url \<and>
    (\<forall>i<100. \<exists>r. photo_get env url i = Resolved r \<and> data r = Undefined) \<and>
    send env (ctx sess) MsgReceived = None"
  then have f: "\<forall>i<100. \<exists>r. photo_get env url i = Resolved r \<and> \<not> truthy (data r)" by auto
  from a have "\<forall>i<100. \<exists>r. photo_get env url i = Resolved r \<and> data r = Undefined" by simp
  from this [rule_format, of 99] obtain r where
    r: "photo_get env url 99 = Resolved r" "data r = Undefined" by auto
  from fetch_photo_loop_falsy [OF f, of 0 None] r
  have p: "fetch_photo (photo_get env url) = Inr r" by (simp add: fetch_photo_def)
  from a p r show t: "try_block env sess = Some (Some TypeError, [MsgReceived])"
    by (simp add: try_block_def)
  then show "\<forall>us. processUserSession env sess us
         = Some (None, release us (userId sess), [MsgReceived, MsgError TypeError])"
    by (simp add: processUserSession_def)
qed

theorem photo_guard_checks_response_only_witness:
  "fetch_photo (\<lambda>i. Rejected None) = Inl LoadFailed \<and>
   fetch_photo (\<lambda>i. Resolved \<lparr>status = 200, data = Undefined\<rparr>)
     = Inr \<lparr>status = 200, data = Undefined\<rparr> \<and>
   processUserSession empty_body_env \<lparr>userId = 5, ctx = 1, photoId = ''ph''\<rparr>
       [\<lparr>userId = 5, ctx = 1, photoId = ''ph''\<rparr>]
     = Some (None, release [\<lparr>userId = 5, ctx = 1, photoId = ''ph''\<rparr>] 5,
         [MsgReceived, MsgError TypeError])"
proof -
  let ?s = "\<lparr>userId = 5, ctx = 1, photoId = ''ph''\<rparr>"
  have 1: "fetch_photo (\<lambda>i. Rejected None) = Inl LoadFailed"
    using photo_guard_checks_response_only [of "\<lambda>i. Rejected None"] by simp
  have 2: "fetch_photo (\<lambda>i. Resolved \<lparr>status = 200, data = Undefined\<rparr>)
     = Inr \<lparr>status = 200, data = Undefined\<rparr>"
    using photo_guard_checks_response_only [of "\<lambda>i. Resolved \<lparr>status = 200, data = Undefined\<rparr>"]
    by auto
  have 3: "processUserSession empty_body_env ?s [?s]
     = Some (None, release [?s] 5, [MsgReceived, MsgError TypeError])"
    using photo_guard_checks_response_only [of _ empty_body_env ?s "''https://files/photo''"]
    by (simp add: empty_body_env_def scenario_env_def)
  from 1 2 3 show ?thesis by simp
qed


















end
